theory Spec2Isabelle
  imports Main "HOL-Library.Char_ord" "HOL-Library.List_Lexorder" "HOL-Library.Product_Lexorder"
begin

section \<open>Shared string helpers\<close>

text \<open>
  Python strings are modelled as \<^typ>\<open>string\<close>. The helpers below follow
  \<^verbatim>\<open>str.lower\<close>, \<^verbatim>\<open>x in s\<close>, \<^verbatim>\<open>str.strip\<close> and
  \<^verbatim>\<open>str.split\<close> on the ASCII range.
\<close>

definition lower_char :: "char \<Rightarrow> char" where
  "lower_char c =
     (let n = (of_char c :: nat) in if 65 \<le> n \<and> n \<le> 90 then char_of (n + 32) else c)"

definition lower :: "string \<Rightarrow> string" where
  "lower s = map lower_char s"

fun starts_with :: "string \<Rightarrow> string \<Rightarrow> bool" where
  "starts_with s [] = True"
| "starts_with [] (p # ps) = False"
| "starts_with (c # cs) (p # ps) = (c = p \<and> starts_with cs ps)"

fun contains :: "string \<Rightarrow> string \<Rightarrow> bool" where
  "contains [] k = (k = [])"
| "contains (c # cs) k = (starts_with (c # cs) k \<or> contains cs k)"

text \<open>
  ASCII characters for which \<^verbatim>\<open>str.isspace\<close> holds: tab, line feed, vertical
  tab, form feed, carriage return, the four separators 0x1C..0x1F and the space.
\<close>

definition is_space :: "char \<Rightarrow> bool" where
  "is_space c = (let n = (of_char c :: nat) in (9 \<le> n \<and> n \<le> 13) \<or> (28 \<le> n \<and> n \<le> 32))"

definition lstrip :: "string \<Rightarrow> string" where
  "lstrip s = dropWhile is_space s"

definition rstrip :: "string \<Rightarrow> string" where
  "rstrip s = rev (dropWhile is_space (rev s))"

definition strip :: "string \<Rightarrow> string" where
  "strip s = rstrip (lstrip s)"

text \<open>\<^verbatim>\<open>s.split(c)\<close> for a one-character separator: never an empty list.\<close>

fun split_on :: "char \<Rightarrow> string \<Rightarrow> string list" where
  "split_on c [] = [[]]"
| "split_on c (x # xs) =
     (if x = c then [] # split_on c xs
      else (case split_on c xs of
              [] \<Rightarrow> [[x]]
            | piece # pieces \<Rightarrow> (x # piece) # pieces))"

text \<open>\<^verbatim>\<open>s.split(c)[0]\<close>: the text before the first separator.\<close>

definition first_piece :: "char \<Rightarrow> string \<Rightarrow> string" where
  "first_piece c s = takeWhile (\<lambda>x. x \<noteq> c) s"

text \<open>
  \<^verbatim>\<open>str.splitlines\<close> on the ASCII line boundaries: LF, CR, CR LF, VT, FF and the
  separators 0x1C, 0x1D, 0x1E. A line break at the very end opens no further line.
\<close>

definition is_linebreak :: "char \<Rightarrow> bool" where
  "is_linebreak c =
     (let n = (of_char c :: nat) in (10 \<le> n \<and> n \<le> 13) \<or> (28 \<le> n \<and> n \<le> 30))"

fun splitlines_acc :: "string \<Rightarrow> string \<Rightarrow> string list" where
  "splitlines_acc cur [] = (if cur = [] then [] else [rev cur])"
| "splitlines_acc cur (x # xs) =
     (if x = CHR 0x0D then
        (case xs of
           y # ys \<Rightarrow> if y = CHR 0x0A then rev cur # splitlines_acc [] ys
                     else rev cur # splitlines_acc [] xs
         | [] \<Rightarrow> [rev cur])
      else if is_linebreak x then rev cur # splitlines_acc [] xs
      else splitlines_acc (x # cur) xs)"

definition splitlines :: "string \<Rightarrow> string list" where
  "splitlines s = splitlines_acc [] s"

section \<open>Dependency graph (debian\_dep\_sort.py)\<close>

type_synonym path = string

text \<open>
  \<^verbatim>\<open>PackageDepGraph\<close>. The dictionaries \<^verbatim>\<open>package_dirs\<close> and
  \<^verbatim>\<open>order_hint\<close> are association lists in insertion order; the sets
  \<^verbatim>\<open>nodes\<close>, \<^verbatim>\<open>adj[n]\<close>, \<^verbatim>\<open>rev[n]\<close> and \<^verbatim>\<open>unresolved[n]\<close> are
  duplicate-free lists, whose order stands for the (unspecified) iteration order of the
  Python set. The field \<^verbatim>\<open>rev\<close> is named \<open>rev_of\<close> here.
\<close>

record PackageDepGraph =
  package_dirs :: "(string \<times> path) list"
  order_hint :: "(string \<times> int) list"
  nodes :: "string list"
  adj :: "string \<Rightarrow> string list"
  rev_of :: "string \<Rightarrow> string list"
  unresolved :: "string \<Rightarrow> string list"

definition set_add :: "'a \<Rightarrow> 'a list \<Rightarrow> 'a list" where
  "set_add x xs = (if x \<in> set xs then xs else xs @ [x])"

definition init_graph :: "(string \<times> path) list \<Rightarrow> (string \<times> int) list \<Rightarrow> PackageDepGraph" where
  "init_graph dirs hint =
     \<lparr>package_dirs = dirs, order_hint = hint, nodes = remdups (map fst dirs),
      adj = (\<lambda>_. []), rev_of = (\<lambda>_. []), unresolved = (\<lambda>_. [])\<rparr>"

definition add_edge :: "string \<Rightarrow> string \<Rightarrow> PackageDepGraph \<Rightarrow> PackageDepGraph" where
  "add_edge prereq dependent g =
     (if prereq = dependent then g
      else g\<lparr>adj := (adj g)(prereq := set_add dependent (adj g prereq)),
             rev_of := (rev_of g)(dependent := set_add prereq (rev_of g dependent))\<rparr>)"

subsection \<open>Control files\<close>

text \<open>A paragraph is a dictionary from field name to value, in insertion order.\<close>

type_synonym stanza = "(string \<times> string) list"

fun dict_set :: "'k \<Rightarrow> 'v \<Rightarrow> ('k \<times> 'v) list \<Rightarrow> ('k \<times> 'v) list" where
  "dict_set k v [] = [(k, v)]"
| "dict_set k v ((k', v') # kvs) =
     (if k = k' then (k, v) # kvs else (k', v') # dict_set k v kvs)"

text \<open>
  The loop of \<^verbatim>\<open>_split_paragraphs\<close> over the lines, with its three variables
  \<^verbatim>\<open>paragraphs\<close>, \<^verbatim>\<open>current\<close> and \<^verbatim>\<open>current_key\<close>.
\<close>

fun split_paragraphs_loop ::
  "string list \<Rightarrow> stanza list \<Rightarrow> stanza \<Rightarrow> string option \<Rightarrow> stanza list" where
  "split_paragraphs_loop [] paragraphs current current_key =
     (if current \<noteq> [] then paragraphs @ [current] else paragraphs)"
| "split_paragraphs_loop (raw_line # rest) paragraphs current current_key =
     (let line = rstrip raw_line in
      if strip line = [] then
        (if current \<noteq> [] then split_paragraphs_loop rest (paragraphs @ [current]) [] None
         else split_paragraphs_loop rest paragraphs current current_key)
      else if is_space (hd line) then
        (case current_key of
           Some k \<Rightarrow>
             if k \<noteq> [] then
               split_paragraphs_loop rest paragraphs
                 (dict_set k (the (map_of current k) @ '' '' @ strip line) current) current_key
             else split_paragraphs_loop rest paragraphs current current_key
         | None \<Rightarrow> split_paragraphs_loop rest paragraphs current current_key)
      else if CHR '':'' \<notin> set line then split_paragraphs_loop rest paragraphs current current_key
      else
        let key = strip (takeWhile (\<lambda>x. x \<noteq> CHR '':'') line);
            val = strip (tl (dropWhile (\<lambda>x. x \<noteq> CHR '':'') line))
        in split_paragraphs_loop rest paragraphs (dict_set key val current) (Some key))"

definition split_paragraphs :: "string \<Rightarrow> stanza list" where
  "split_paragraphs content = split_paragraphs_loop (splitlines content) [] [] None"

text \<open>
  The character class of \<^verbatim>\<open>pkgname_re\<close>, \<^verbatim>\<open>[A-Za-z0-9+_.:-]\<close>, and the match of
  \<^verbatim>\<open>([A-Za-z0-9+_.:-]+)\<close> at the start of a token: the longest run of such
  characters, if it is not empty.
\<close>

definition pkgname_char :: "char \<Rightarrow> bool" where
  "pkgname_char c =
     (let n = (of_char c :: nat) in
      (65 \<le> n \<and> n \<le> 90) \<or> (97 \<le> n \<and> n \<le> 122) \<or> (48 \<le> n \<and> n \<le> 57) \<or>
      c = CHR ''+'' \<or> c = CHR ''_'' \<or> c = CHR ''.'' \<or> c = CHR '':'' \<or> c = CHR ''-'')"

definition pkgname_match :: "string \<Rightarrow> string option" where
  "pkgname_match token =
     (let m = takeWhile pkgname_char token in if m = [] then None else Some m)"

definition parse_token :: "string \<Rightarrow> string" where
  "parse_token part =
     (let token = strip (first_piece (CHR ''|'') part);
          token = strip (first_piece (CHR ''('') token);
          token = strip (first_piece (CHR ''['') token);
          token = strip (first_piece (CHR ''{'') token)
      in if CHR '':'' \<in> set token then strip (first_piece (CHR '':'') token) else token)"

definition parse_depends :: "string \<Rightarrow> string list" where
  "parse_depends val =
     concat (map (\<lambda>part. case pkgname_match (parse_token part) of
                            None \<Rightarrow> [] | Some name \<Rightarrow> [name])
                 (split_on (CHR '','') val))"

definition default_fields :: "string list" where
  "default_fields = [''Depends'', ''Build-Depends'', ''Build-Depends-Indep'', ''Build-Depends-Arch'']"

text \<open>
  The innermost step of \<^verbatim>\<open>build_from_control_dirs\<close>: one dependency name of one
  package.
\<close>

definition note_dependency :: "string \<Rightarrow> string \<Rightarrow> PackageDepGraph \<Rightarrow> PackageDepGraph" where
  "note_dependency pkg dep_pkg g =
     (if dep_pkg \<in> fst ` set (package_dirs g) \<and> dep_pkg \<noteq> pkg then add_edge dep_pkg pkg g
      else if dep_pkg \<notin> fst ` set (package_dirs g)
           then g\<lparr>unresolved := (unresolved g)(pkg := set_add dep_pkg (unresolved g pkg))\<rparr>
      else g)"

definition scan_field :: "string \<Rightarrow> stanza \<Rightarrow> string \<Rightarrow> PackageDepGraph \<Rightarrow> PackageDepGraph" where
  "scan_field pkg st field g =
     (case map_of st field of
        None \<Rightarrow> g
      | Some raw_value \<Rightarrow>
          if raw_value = [] then g else fold (note_dependency pkg) (parse_depends raw_value) g)"

definition scan_package ::
  "(path \<Rightarrow> string option) \<Rightarrow> string list \<Rightarrow> string \<times> path \<Rightarrow> PackageDepGraph \<Rightarrow> PackageDepGraph" where
  "scan_package control_text field_names entry g =
     (case control_text (snd entry) of
        None \<Rightarrow> g
      | Some content \<Rightarrow>
          fold (\<lambda>st g. fold (scan_field (fst entry) st) field_names g) (split_paragraphs content) g)"

text \<open>
  \<^verbatim>\<open>build_from_control_dirs\<close>. The argument \<open>control_text\<close> gives, for a package
  directory, the text of its \<^verbatim>\<open>debian/control\<close>, or \<open>None\<close> when that is not a
  readable file.
\<close>

definition build_from_control_dirs ::
  "(path \<Rightarrow> string option) \<Rightarrow> string list option \<Rightarrow> PackageDepGraph \<Rightarrow> PackageDepGraph" where
  "build_from_control_dirs control_text depends_field_names g =
     (let field_names = (case depends_field_names of
                           None \<Rightarrow> default_fields
                         | Some fs \<Rightarrow> if fs = [] then default_fields else fs)
      in fold (scan_package control_text field_names) (package_dirs g) g)"

subsection \<open>Topological scheduler\<close>

text \<open>
  The two ways \<^verbatim>\<open>topo_sort\<close> raises: \<^verbatim>\<open>KeyError\<close> for a requested package the
  graph does not know, and \<^verbatim>\<open>ValueError("Cycle detected among: ...")\<close>, which
  carries the sorted names of the nodes left unordered.
\<close>

datatype topo_error = KeyError string | ValueError "string list"

text \<open>
  The closure loop of \<^verbatim>\<open>topo_sort\<close>. The Python stack grows at its end; here the
  head of the list is the top, so the stack starts as the reversed \<^verbatim>\<open>subset\<close>.
\<close>

definition push_unvisited :: "string list \<Rightarrow> string list \<Rightarrow> string list \<Rightarrow> string list" where
  "push_unvisited working preds stack =
     fold (\<lambda>predecessor st. if predecessor \<notin> set working then predecessor # st else st) preds stack"

function closure_loop :: "PackageDepGraph \<Rightarrow> string list \<Rightarrow> string list \<Rightarrow> topo_error + string list" where
  "closure_loop g [] working_nodes = Inr working_nodes"
| "closure_loop g (node # stack) working_nodes =
     (if node \<in> set working_nodes then closure_loop g stack working_nodes
      else if node \<notin> set (nodes g) then Inl (KeyError node)
      else closure_loop g (push_unvisited (working_nodes @ [node]) (rev_of g node) stack)
             (working_nodes @ [node]))"
  by pat_completeness auto
termination
proof (relation "measures [\<lambda>(g, stack, w). card (set (nodes g) - set w), \<lambda>(g, stack, w). length stack]")
  show "wf (measures [\<lambda>(g, stack, w). card (set (nodes g) - set w), \<lambda>(g, stack, w). length stack])"
    by simp
next
  fix g :: PackageDepGraph and node :: string and stack working_nodes :: "string list"
  assume "node \<in> set working_nodes"
  then show "((g, stack, working_nodes), g, node # stack, working_nodes)
       \<in> measures [\<lambda>(g, stack, w). card (set (nodes g) - set w), \<lambda>(g, stack, w). length stack]"
    by simp
next
  fix g :: PackageDepGraph and node :: string and stack working_nodes :: "string list"
  assume a: "node \<notin> set working_nodes" "\<not> node \<notin> set (nodes g)"
  have "set (nodes g) - set (working_nodes @ [node]) \<subset> set (nodes g) - set working_nodes"
    using a by auto
  then have "card (set (nodes g) - set (working_nodes @ [node])) < card (set (nodes g) - set working_nodes)"
    by (intro psubset_card_mono) auto
  then show "((g, push_unvisited (working_nodes @ [node]) (rev_of g node) stack, working_nodes @ [node]),
        g, node # stack, working_nodes)
       \<in> measures [\<lambda>(g, stack, w). card (set (nodes g) - set w), \<lambda>(g, stack, w). length stack]"
    by simp
qed

text \<open>The in-degree dictionary, restricted to the working nodes.\<close>

definition count_followers :: "PackageDepGraph \<Rightarrow> string list \<Rightarrow> string \<Rightarrow> (string \<Rightarrow> int) \<Rightarrow> (string \<Rightarrow> int)" where
  "count_followers g working_nodes node in_degree =
     fold (\<lambda>follower deg. if follower \<in> set working_nodes then deg(follower := deg follower + 1) else deg)
       (adj g node) in_degree"

definition compute_in_degree :: "PackageDepGraph \<Rightarrow> string list \<Rightarrow> (string \<Rightarrow> int)" where
  "compute_in_degree g working_nodes = fold (count_followers g working_nodes) working_nodes (\<lambda>_. 0)"

definition priority_of :: "PackageDepGraph \<Rightarrow> int \<Rightarrow> string \<Rightarrow> int" where
  "priority_of g default_priority node =
     (case map_of (order_hint g) node of Some p \<Rightarrow> p | None \<Rightarrow> default_priority)"

text \<open>
  \<^verbatim>\<open>heapq\<close> on tuples \<open>(priority, node)\<close>: the queue is kept as a list,
  \<^verbatim>\<open>heappush\<close> adds an item and \<^verbatim>\<open>heappop\<close> removes the least item in the
  order of Python tuples (priority first, then the node name, compared as strings).
\<close>

type_synonym heap = "(int \<times> string) list"

definition heappush :: "heap \<Rightarrow> int \<times> string \<Rightarrow> heap" where
  "heappush queue item = queue @ [item]"

definition heap_min :: "heap \<Rightarrow> int \<times> string" where
  "heap_min queue = fold min (tl queue) (hd queue)"

definition heappop :: "heap \<Rightarrow> (int \<times> string) \<times> heap" where
  "heappop queue = (heap_min queue, remove1 (heap_min queue) queue)"

text \<open>The \<^verbatim>\<open>for follower in self.adj.get(node, ())\<close> loop inside the main loop.\<close>

fun release_followers ::
  "PackageDepGraph \<Rightarrow> string list \<Rightarrow> int \<Rightarrow> string list \<Rightarrow> (string \<Rightarrow> int) \<times> heap
     \<Rightarrow> (string \<Rightarrow> int) \<times> heap" where
  "release_followers g working_nodes dp [] (in_degree, queue) = (in_degree, queue)"
| "release_followers g working_nodes dp (follower # rest) (in_degree, queue) =
     (if follower \<notin> set working_nodes then release_followers g working_nodes dp rest (in_degree, queue)
      else
        let in_degree' = in_degree(follower := in_degree follower - 1) in
        if in_degree' follower = 0
        then release_followers g working_nodes dp rest
               (in_degree', heappush queue (priority_of g dp follower, follower))
        else release_followers g working_nodes dp rest (in_degree', queue))"

definition kahn_measure :: "string list \<Rightarrow> (string \<Rightarrow> int) \<times> heap \<Rightarrow> nat" where
  "kahn_measure working_nodes s = 2 * (\<Sum>n\<in>set working_nodes. nat (fst s n)) + length (snd s)"

lemma release_followers_measure:
  "kahn_measure W (release_followers g W dp fs s) \<le> kahn_measure W s"
proof (induction fs arbitrary: s)
  case Nil
  then show ?case by (cases s) simp
next
  case (Cons f fs)
  obtain deg q where s: "s = (deg, q)" by (cases s)
  show ?case
  proof (cases "f \<in> set W")
    case False
    then show ?thesis using Cons.IH [of s] by (simp add: s)
  next
    case True
    define deg' where "deg' = deg(f := deg f - 1)"
    have at: "deg' f = deg f - 1" and off: "\<And>n. n \<noteq> f \<Longrightarrow> deg' n = deg n"
      by (simp_all add: deg'_def)
    have split: "(\<Sum>n\<in>set W. nat (d n)) = nat (d f) + (\<Sum>n\<in>set W - {f}. nat (d n))"
      for d :: "string \<Rightarrow> int"
      using True by (simp add: sum.remove)
    have same: "(\<Sum>n\<in>set W - {f}. nat (deg' n)) = (\<Sum>n\<in>set W - {f}. nat (deg n))"
      by (rule sum.cong) (auto simp: off)
    have sums: "(\<Sum>n\<in>set W. nat (deg' n)) + (nat (deg f) - nat (deg f - 1))
                  = (\<Sum>n\<in>set W. nat (deg n))"
      unfolding split [of deg'] split [of deg] same at by simp
    show ?thesis
    proof (cases "deg f - 1 = 0")
      case z: True
      then have "nat (deg f) - nat (deg f - 1) = 1" by simp
      with sums have "kahn_measure W (deg', heappush q (priority_of g dp f, f)) \<le> kahn_measure W (deg, q)"
        by (simp add: kahn_measure_def heappush_def)
      with Cons.IH [of "(deg', heappush q (priority_of g dp f, f))"] show ?thesis
        using True z by (simp add: s Let_def deg'_def)
    next
      case nz: False
      from sums have "kahn_measure W (deg', q) \<le> kahn_measure W (deg, q)"
        by (simp add: kahn_measure_def)
      with Cons.IH [of "(deg', q)"] show ?thesis
        using True nz by (simp add: s Let_def deg'_def)
    qed
  qed
qed

text \<open>The \<^verbatim>\<open>while queue\<close> loop.\<close>

function kahn_loop ::
  "PackageDepGraph \<Rightarrow> string list \<Rightarrow> int \<Rightarrow> (string \<Rightarrow> int) \<Rightarrow> heap \<Rightarrow> string list \<Rightarrow> string list" where
  "kahn_loop g working_nodes dp in_degree queue sorted_nodes =
     (if queue = [] then sorted_nodes
      else
        let (item, queue1) = heappop queue;
            node = snd item;
            (in_degree', queue') =
               release_followers g working_nodes dp (adj g node) (in_degree, queue1)
        in kahn_loop g working_nodes dp in_degree' queue' (sorted_nodes @ [node]))"
  by pat_completeness auto

lemma heap_min_in: "queue \<noteq> [] \<Longrightarrow> heap_min queue \<in> set queue"
proof -
  have "fold min xs x \<in> set (x # xs)" for xs :: heap and x
    by (induction xs arbitrary: x) (auto simp: min_def)
  then show "queue \<noteq> [] \<Longrightarrow> heap_min queue \<in> set queue"
    by (cases queue) (auto simp: heap_min_def)
qed

termination kahn_loop
proof (relation "measure (\<lambda>(g, W, dp, deg, q, sorted). kahn_measure W (deg, q))")
  show "wf (measure (\<lambda>(g, W, dp, deg, q, sorted). kahn_measure W (deg, q)))" by simp
next
  fix g :: PackageDepGraph and working_nodes dp in_degree queue sorted_nodes x xa y xb ya xc yb
  assume a: "queue \<noteq> []" "x = heappop queue" "(xa, y) = x" "xb = snd xa"
    "yb = release_followers g working_nodes dp (adj g xb) (in_degree, y)" "(xc, ya) = yb"
  have "length y < length queue"
    using a heap_min_in [of queue] by (auto simp: heappop_def length_remove1 )
  then have "kahn_measure working_nodes (in_degree, y) < kahn_measure working_nodes (in_degree, queue)"
    by (simp add: kahn_measure_def)
  moreover have "kahn_measure working_nodes (xc, ya) \<le> kahn_measure working_nodes (in_degree, y)"
    using release_followers_measure [of working_nodes g dp "adj g xb" "(in_degree, y)"] a by simp
  ultimately show "((g, working_nodes, dp, xc, ya, sorted_nodes @ [xb]), g, working_nodes, dp, in_degree, queue, sorted_nodes)
       \<in> measure (\<lambda>(g, W, dp, deg, q, sorted). kahn_measure W (deg, q))"
    by simp
qed

declare kahn_loop.simps [simp del]


definition initial_queue :: "PackageDepGraph \<Rightarrow> int \<Rightarrow> (string \<Rightarrow> int) \<Rightarrow> string list \<Rightarrow> heap" where
  "initial_queue g dp in_degree working_nodes =
     fold (\<lambda>node queue. if in_degree node = 0 then heappush queue (priority_of g dp node, node) else queue)
       working_nodes []"

definition len_dict :: "('k \<times> 'v) list \<Rightarrow> nat" where
  "len_dict d = length (remdups (map fst d))"

definition topo_sort ::
  "PackageDepGraph \<Rightarrow> string list option \<Rightarrow> bool \<Rightarrow> topo_error + string list" where
  "topo_sort g subset_opt include_dependencies =
     (case (case subset_opt of None \<Rightarrow> Inr (nodes g) | Some s \<Rightarrow> closure_loop g (rev s) []) of
        Inl e \<Rightarrow> Inl e
      | Inr working_nodes \<Rightarrow>
          let in_degree = compute_in_degree g working_nodes;
              default_priority = int (len_dict (order_hint g)) + int (length working_nodes) + 5;
              queue = initial_queue g default_priority in_degree working_nodes;
              sorted_nodes = kahn_loop g working_nodes default_priority in_degree queue []
          in if length sorted_nodes \<noteq> length working_nodes
             then Inl (ValueError (sort (filter (\<lambda>n. n \<notin> set sorted_nodes) working_nodes)))
             else (case subset_opt of
                     None \<Rightarrow> Inr sorted_nodes
                   | Some s \<Rightarrow> if include_dependencies then Inr sorted_nodes
                              else Inr (filter (\<lambda>node. node \<in> set s) sorted_nodes)))"

subsection \<open>The scenario of three control files\<close>

definition abc_dirs :: "(string \<times> path) list" where
  "abc_dirs = [(''A'', ''/ws/A''), (''B'', ''/ws/B''), (''C'', ''/ws/C'')]"

definition abc_control :: "path \<Rightarrow> string option" where
  "abc_control p =
     (if p = ''/ws/A'' then Some ''Source: A\<newline>Depends: B, C (>= 1.0)\<newline>''
      else if p = ''/ws/B'' then Some ''Source: B\<newline>''
      else if p = ''/ws/C'' then Some ''Source: C\<newline>Build-Depends: B | D\<newline>''
      else None)"

definition abc_graph :: PackageDepGraph where
  "abc_graph = build_from_control_dirs abc_control None (init_graph abc_dirs [])"

lemma split_paragraphs_A:
  "split_paragraphs ''Source: A\<newline>Depends: B, C (>= 1.0)\<newline>'' =
     [[(''Source'', ''A''), (''Depends'', ''B, C (>= 1.0)'')]]"
  by code_simp

lemma split_paragraphs_B: "split_paragraphs ''Source: B\<newline>'' = [[(''Source'', ''B'')]]"
  by code_simp

lemma split_paragraphs_C:
  "split_paragraphs ''Source: C\<newline>Build-Depends: B | D\<newline>'' =
     [[(''Source'', ''C''), (''Build-Depends'', ''B | D'')]]"
  by code_simp

lemma parse_depends_A: "parse_depends ''B, C (>= 1.0)'' = [''B'', ''C'']"
  by code_simp

lemma parse_depends_C: "parse_depends ''B | D'' = [''B'']"
  by code_simp

lemma abc_graph_eq:
  "abc_graph =
     \<lparr>package_dirs = abc_dirs, order_hint = [], nodes = [''A'', ''B'', ''C''],
      adj = (\<lambda>_. [])(''B'' := [''A'', ''C''], ''C'' := [''A'']),
      rev_of = (\<lambda>_. [])(''A'' := [''B'', ''C''], ''C'' := [''B'']),
      unresolved = (\<lambda>_. [])\<rparr>"
  by (simp add: abc_graph_def build_from_control_dirs_def init_graph_def abc_dirs_def
        scan_package_def abc_control_def split_paragraphs_A split_paragraphs_B
        split_paragraphs_C parse_depends_A parse_depends_C scan_field_def default_fields_def
        note_dependency_def add_edge_def set_add_def fun_upd_twist)

text \<open>
  C7. With control files for the known packages A (\<^verbatim>\<open>Depends: B, C (>= 1.0)\<close>),
  B (no dependency field) and C (\<^verbatim>\<open>Build-Depends: B | D\<close>, D unknown),
  \<^verbatim>\<open>build_from_control_dirs\<close> leaves exactly the edges B \<open>\<rightarrow>\<close> A, C \<open>\<rightarrow>\<close> A and
  B \<open>\<rightarrow>\<close> C in \<^verbatim>\<open>adj\<close> (mirrored in \<^verbatim>\<open>rev\<close>), records nothing as unresolved,
  and \<^verbatim>\<open>topo_sort(["A"], include_dependencies=True)\<close> returns \<open>[B, C, A]\<close>.
\<close>

theorem abc_scenario:
  "adj abc_graph = (\<lambda>_. [])(''B'' := [''A'', ''C''], ''C'' := [''A''])
   \<and> rev_of abc_graph = (\<lambda>_. [])(''A'' := [''B'', ''C''], ''C'' := [''B''])
   \<and> unresolved abc_graph = (\<lambda>_. [])
   \<and> topo_sort abc_graph (Some [''A'']) True = Inr [''B'', ''C'', ''A'']"
proof -
  have "topo_sort abc_graph (Some [''A'']) True = Inr [''B'', ''C'', ''A'']"
    by code_simp
  then show ?thesis by (simp add: abc_graph_eq)
qed

subsection \<open>Correctness of the scheduler\<close>

text \<open>
  The edges of a graph, the graphs that \<^verbatim>\<open>__init__\<close> and \<^verbatim>\<open>add_edge\<close> can
  build (duplicate-free sets, \<^verbatim>\<open>rev\<close> the mirror of \<^verbatim>\<open>adj\<close>, edges between
  known nodes only), and the backward prerequisite closure of a requested subset.
\<close>

definition edges :: "PackageDepGraph \<Rightarrow> (string \<times> string) set" where
  "edges g = {(p, f). f \<in> set (adj g p)}"

definition wf_graph :: "PackageDepGraph \<Rightarrow> bool" where
  "wf_graph g =
     (distinct (nodes g) \<and> (\<forall>p. distinct (adj g p)) \<and>
      (\<forall>p f. (p \<in> set (rev_of g f)) = (f \<in> set (adj g p))) \<and>
      (\<forall>p f. f \<in> set (adj g p) \<longrightarrow> p \<in> set (nodes g) \<and> f \<in> set (nodes g)))"

definition closure_of :: "PackageDepGraph \<Rightarrow> string list \<Rightarrow> string set" where
  "closure_of g s = {n. \<exists>t\<in>set s. (n, t) \<in> (edges g)\<^sup>*}"

definition restrict_edges :: "PackageDepGraph \<Rightarrow> string set \<Rightarrow> (string \<times> string) set" where
  "restrict_edges g X = {(p, f). f \<in> set (adj g p) \<and> p \<in> X \<and> f \<in> X}"

definition closure_edges :: "PackageDepGraph \<Rightarrow> string list \<Rightarrow> (string \<times> string) set" where
  "closure_edges g s = restrict_edges g (closure_of g s)"

lemma push_unvisited_set:
  "set (push_unvisited w ps st) = {p \<in> set ps. p \<notin> set w} \<union> set st"
  unfolding push_unvisited_def
  by (induction ps arbitrary: st) auto

lemma closure_of_pred: "t \<in> closure_of g s \<Longrightarrow> (p, t) \<in> edges g \<Longrightarrow> p \<in> closure_of g s"
  unfolding closure_of_def by (auto intro: converse_rtrancl_into_rtrancl)

lemma closure_of_least:
  assumes "set s \<subseteq> X" and "\<And>p t. t \<in> X \<Longrightarrow> (p, t) \<in> edges g \<Longrightarrow> p \<in> X"
  shows "closure_of g s \<subseteq> X"
proof
  fix n assume "n \<in> closure_of g s"
  then obtain t where t: "t \<in> set s" "(n, t) \<in> (edges g)\<^sup>*" by (auto simp: closure_of_def)
  from t(2) have "t \<in> X \<Longrightarrow> n \<in> X"
    by (induction rule: converse_rtrancl_induct) (auto intro: assms(2))
  with t(1) assms(1) show "n \<in> X" by auto
qed

lemma closure_loop_correct:
  assumes "wf_graph g"
    and "distinct working" and "set working \<subseteq> closure_of g s" and "set stack \<subseteq> closure_of g s"
    and "\<forall>w\<in>set working. \<forall>p. (p, w) \<in> edges g \<longrightarrow> p \<in> set working \<union> set stack"
    and "set s \<subseteq> set working \<union> set stack"
    and "closure_of g s \<subseteq> set (nodes g)"
  shows "\<exists>W. closure_loop g stack working = Inr W \<and> distinct W \<and> set W = closure_of g s"
  using assms
proof (induction g stack working rule: closure_loop.induct)
  case (1 g working)
  have "closure_of g s \<subseteq> set working"
    using 1 by (intro closure_of_least) auto
  with 1 show ?case by auto
next
  case (2 g node stack working)
  show ?case
  proof (cases "node \<in> set working")
    case True
    have "\<exists>W. closure_loop g stack working = Inr W \<and> distinct W \<and> set W = closure_of g s"
      using 2 True by (intro "2.IH"(1)) auto
    with True show ?thesis by simp
  next
    case False
    have n: "node \<in> set (nodes g)" using 2 by auto
    have rv: "\<And>p. (p \<in> set (rev_of g node)) = ((p, node) \<in> edges g)"
      using "2.prems"(1) by (simp add: wf_graph_def edges_def)
    have "\<exists>W. closure_loop g (push_unvisited (working @ [node]) (rev_of g node) stack) (working @ [node]) = Inr W
            \<and> distinct W \<and> set W = closure_of g s"
    proof (intro "2.IH"(2) False)
      show "\<not> node \<notin> set (nodes g)" using n by simp
      show "wf_graph g" by fact
      show "distinct (working @ [node])" using 2 False by simp
      show "set (working @ [node]) \<subseteq> closure_of g s" using 2 by simp
      show "set (push_unvisited (working @ [node]) (rev_of g node) stack) \<subseteq> closure_of g s"
        using "2.prems"(4) by (auto simp: push_unvisited_set rv intro: closure_of_pred)
      show "\<forall>w\<in>set (working @ [node]). \<forall>p. (p, w) \<in> edges g \<longrightarrow>
               p \<in> set (working @ [node]) \<union> set (push_unvisited (working @ [node]) (rev_of g node) stack)"
        using "2.prems"(5) by (auto simp: push_unvisited_set rv)
      show "set s \<subseteq> set (working @ [node]) \<union> set (push_unvisited (working @ [node]) (rev_of g node) stack)"
        using "2.prems"(6) by (auto simp: push_unvisited_set)
      show "closure_of g s \<subseteq> set (nodes g)" by fact
    qed
    with False n show ?thesis by simp
  qed
qed

lemma closure_of_nodes:
  assumes "wf_graph g" and "set s \<subseteq> set (nodes g)"
  shows "closure_of g s \<subseteq> set (nodes g)"
  using assms by (intro closure_of_least) (auto simp: wf_graph_def edges_def)

lemma closure_of_refl: "set s \<subseteq> closure_of g s"
  by (auto simp: closure_of_def)

lemma closure_loop_closure:
  assumes "wf_graph g" and "set s \<subseteq> set (nodes g)"
  shows "\<exists>W. closure_loop g (rev s) [] = Inr W \<and> distinct W \<and> set W = closure_of g s"
  using assms closure_of_refl [of s g]
  by (intro closure_loop_correct) (auto simp: closure_of_nodes)

definition npreds :: "PackageDepGraph \<Rightarrow> string list \<Rightarrow> string set \<Rightarrow> string \<Rightarrow> nat" where
  "npreds g W S n = card {p \<in> set W - S. n \<in> set (adj g p)}"

definition ready :: "PackageDepGraph \<Rightarrow> string list \<Rightarrow> string set \<Rightarrow> string set" where
  "ready g W S = {n \<in> set W - S. \<forall>p\<in>set W. n \<in> set (adj g p) \<longrightarrow> p \<in> S}"

definition chosen :: "PackageDepGraph \<Rightarrow> string list \<Rightarrow> int \<Rightarrow> string set \<Rightarrow> string \<Rightarrow> bool" where
  "chosen g W dp S n =
     (n \<in> ready g W S \<and>
      (\<forall>m\<in>ready g W S. (priority_of g dp n, n) \<le> (priority_of g dp m, m)))"

lemma npreds_zero: "npreds g W S n = 0 \<longleftrightarrow> (\<forall>p\<in>set W. n \<in> set (adj g p) \<longrightarrow> p \<in> S)"
  by (auto simp: npreds_def)

lemma count_inner:
  "distinct fs \<Longrightarrow>
   fold (\<lambda>follower deg. if follower \<in> set W then deg(follower := deg follower + 1) else deg) fs deg n
     = deg n + (if n \<in> set W \<and> n \<in> set fs then 1 else (0::int))"
  by (induction fs arbitrary: deg) auto

lemma count_followers_eq:
  "distinct (adj g node) \<Longrightarrow>
   count_followers g W node deg n = deg n + (if n \<in> set W \<and> n \<in> set (adj g node) then 1 else 0)"
  unfolding count_followers_def by (rule count_inner)

lemma count_outer:
  assumes "\<And>p. distinct (adj g p)" and "distinct ps"
  shows "fold (count_followers g W) ps deg n
           = deg n + (if n \<in> set W then int (card {p \<in> set ps. n \<in> set (adj g p)}) else 0)"
  using assms(2)
proof (induction ps arbitrary: deg)
  case Nil
  then show ?case by simp
next
  case (Cons a ps)
  have fin: "finite {p \<in> set ps. n \<in> set (adj g p)}" by simp
  have split: "{p \<in> set (a # ps). n \<in> set (adj g p)}
                 = (if n \<in> set (adj g a) then insert a {p \<in> set ps. n \<in> set (adj g p)}
                    else {p \<in> set ps. n \<in> set (adj g p)})"
    by auto
  have notin: "a \<notin> {p \<in> set ps. n \<in> set (adj g p)}" using Cons.prems by simp
  have c: "card {p \<in> set (a # ps). n \<in> set (adj g p)}
              = (if n \<in> set (adj g a) then 1 else 0) + card {p \<in> set ps. n \<in> set (adj g p)}"
    unfolding split using fin notin by (simp del: mem_Collect_eq)
  have "fold (count_followers g W) (a # ps) deg n
          = fold (count_followers g W) ps (count_followers g W a deg) n"
    by simp
  also have "\<dots> = count_followers g W a deg n
                  + (if n \<in> set W then int (card {p \<in> set ps. n \<in> set (adj g p)}) else 0)"
    by (rule Cons.IH) (use Cons.prems in simp)
  also have "\<dots> = deg n + (if n \<in> set W \<and> n \<in> set (adj g a) then 1 else 0)
                  + (if n \<in> set W then int (card {p \<in> set ps. n \<in> set (adj g p)}) else 0)"
    by (simp only: count_followers_eq [OF assms(1)])
  also have "\<dots> = deg n + (if n \<in> set W then int (card {p \<in> set (a # ps). n \<in> set (adj g p)}) else 0)"
    unfolding c by simp
  finally show ?case .
qed

lemma compute_in_degree_eq:
  assumes "\<And>p. distinct (adj g p)" and "distinct W" and "n \<in> set W"
  shows "compute_in_degree g W n = int (npreds g W {} n)"
  unfolding compute_in_degree_def npreds_def
  using count_outer [OF assms(1,2), of W "\<lambda>_. 0" n] assms(3) by simp

lemma heap_min_Min: "queue \<noteq> [] \<Longrightarrow> heap_min queue = Min (set queue)"
proof -
  have "fold min xs x = Min (set (x # xs))" for xs :: heap and x
    using Min.set_eq_fold [of x xs] by simp
  then show "queue \<noteq> [] \<Longrightarrow> heap_min queue = Min (set queue)"
    by (cases queue) (simp_all add: heap_min_def)
qed

lemma release_followers_eq:
  "distinct fs \<Longrightarrow>
   release_followers g W dp fs (deg, q) =
     (\<lambda>n. deg n - (if n \<in> set fs \<and> n \<in> set W then 1 else 0),
      q @ map (\<lambda>f. (priority_of g dp f, f)) (filter (\<lambda>f. f \<in> set W \<and> deg f = 1) fs))"
proof (induction fs arbitrary: deg q)
  case Nil
  then show ?case by simp
next
  case (Cons f fs)
  define deg' where "deg' = deg(f := deg f - 1)"
  have off: "\<And>n. n \<noteq> f \<Longrightarrow> deg' n = deg n" and at: "deg' f = deg f - 1"
    by (simp_all add: deg'_def)
  have same: "x \<in> set fs \<Longrightarrow> deg' x = deg x" for x
    using Cons.prems off [of x] by auto
  have flt: "filter (\<lambda>x. x \<in> set W \<and> deg' x = 1) fs = filter (\<lambda>x. x \<in> set W \<and> deg x = 1) fs"
    by (rule filter_cong) (simp_all add: same)
  have fn: "(\<lambda>n. deg' n - (if n \<in> set fs \<and> n \<in> set W then 1 else 0))
              = (\<lambda>n. deg n - (if n \<in> set (f # fs) \<and> n \<in> set W then 1 else 0))"
    if "f \<in> set W"
  proof (rule ext)
    fix n
    show "deg' n - (if n \<in> set fs \<and> n \<in> set W then 1 else 0)
            = deg n - (if n \<in> set (f # fs) \<and> n \<in> set W then 1 else 0)"
      by (cases "n = f") (use Cons.prems that in \<open>auto simp: off at\<close>)
  qed
  show ?case
  proof (cases "f \<in> set W")
    case False
    then show ?thesis using Cons by (auto simp: fun_eq_iff)
  next
    case True
    show ?thesis
    proof (cases "deg f = 1")
      case one: True
      have "release_followers g W dp (f # fs) (deg, q)
              = release_followers g W dp fs (deg', heappush q (priority_of g dp f, f))"
        using True one by (simp add: deg'_def Let_def)
      also have "\<dots> = (\<lambda>n. deg' n - (if n \<in> set fs \<and> n \<in> set W then 1 else 0),
            heappush q (priority_of g dp f, f) @ map (\<lambda>f. (priority_of g dp f, f)) (filter (\<lambda>f. f \<in> set W \<and> deg' f = 1) fs))"
        using Cons.prems by (intro Cons.IH) simp
      finally show ?thesis using True one by (simp add: fn flt heappush_def)
    next
      case notone: False
      have "release_followers g W dp (f # fs) (deg, q) = release_followers g W dp fs (deg', q)"
        using True notone by (simp add: deg'_def Let_def)
      also have "\<dots> = (\<lambda>n. deg' n - (if n \<in> set fs \<and> n \<in> set W then 1 else 0),
            q @ map (\<lambda>f. (priority_of g dp f, f)) (filter (\<lambda>f. f \<in> set W \<and> deg' f = 1) fs))"
        using Cons.prems by (intro Cons.IH) simp
      finally show ?thesis using True notone by (simp add: fn flt)
    qed
  qed
qed

definition kahn_inv ::
  "PackageDepGraph \<Rightarrow> string list \<Rightarrow> int \<Rightarrow> (string \<Rightarrow> int) \<Rightarrow> heap \<Rightarrow> string list \<Rightarrow> bool" where
  "kahn_inv g W dp deg q sorted_nodes =
     (distinct sorted_nodes \<and> set sorted_nodes \<subseteq> set W \<and>
      (\<forall>n\<in>set W. deg n = int (npreds g W (set sorted_nodes) n)) \<and>
      distinct q \<and>
      set q = (\<lambda>n. (priority_of g dp n, n)) ` ready g W (set sorted_nodes) \<and>
      (\<forall>i<length sorted_nodes. chosen g W dp (set (take i sorted_nodes)) (sorted_nodes ! i)))"

lemma npreds_insert:
  assumes "node \<in> set W" and "node \<notin> S"
  shows "int (npreds g W (insert node S) n)
           = int (npreds g W S n) - (if n \<in> set (adj g node) then 1 else 0)"
proof -
  define A where "A = {p \<in> set W - S. n \<in> set (adj g p)}"
  have eq: "{p \<in> set W - insert node S. n \<in> set (adj g p)} = A - {node}"
    by (auto simp: A_def)
  have fin: "finite A" by (simp add: A_def)
  have mem: "node \<in> A \<longleftrightarrow> n \<in> set (adj g node)" using assms by (simp add: A_def)
  have l: "npreds g W (insert node S) n = card (A - {node})"
    unfolding npreds_def eq ..
  have r: "npreds g W S n = card A"
    unfolding npreds_def A_def ..
  show ?thesis
  proof (cases "n \<in> set (adj g node)")
    case True
    then have "node \<in> A" using mem by simp
    then have "card (A - {node}) = card A - 1" "card A > 0"
      using fin by (auto simp: card_gt_0_iff)
    then show ?thesis unfolding l r using True by simp
  next
    case False
    then have "A - {node} = A" using mem by auto
    then show ?thesis unfolding l r using False by simp
  qed
qed

lemma ready_npreds: "ready g W S = {n \<in> set W - S. npreds g W S n = 0}"
  by (auto simp: ready_def npreds_zero)

lemma ready_earlier:
  assumes "\<forall>i<length xs. chosen g W dp (set (take i xs)) (xs ! i)"
    and "f \<in> set xs" and "p \<in> set W" and "f \<in> set (adj g p)"
  shows "p \<in> set xs"
proof -
  from assms(2) obtain i where i: "i < length xs" "xs ! i = f" by (auto simp: in_set_conv_nth)
  with assms(1) have "f \<in> ready g W (set (take i xs))" by (auto simp: chosen_def)
  with assms(3,4) have "p \<in> set (take i xs)" by (auto simp: ready_def)
  then show ?thesis by (auto dest: in_set_takeD)
qed

lemma kahn_step:
  assumes dist: "\<forall>p. distinct (adj g p)"
    and inv: "kahn_inv g W dp deg q sorted_nodes"
    and ne: "q \<noteq> []"
    and nd: "node = snd (heap_min q)"
    and rel: "release_followers g W dp (adj g node) (deg, remove1 (heap_min q) q) = (deg', q')"
  shows "kahn_inv g W dp deg' q' (sorted_nodes @ [node])"
proof -
  let ?S = "set sorted_nodes"
  let ?R = "ready g W ?S"
  let ?pr = "\<lambda>n. (priority_of g dp n, n)"
  let ?item = "heap_min q"
  let ?new = "filter (\<lambda>f. f \<in> set W \<and> deg f = 1) (adj g node)"
  from inv have i1: "distinct sorted_nodes" and i2: "?S \<subseteq> set W"
    and i3: "\<And>n. n \<in> set W \<Longrightarrow> deg n = int (npreds g W ?S n)"
    and i4: "distinct q" and i5: "set q = ?pr ` ?R"
    and i6: "\<forall>i<length sorted_nodes. chosen g W dp (set (take i sorted_nodes)) (sorted_nodes ! i)"
    by (auto simp: kahn_inv_def)
  have min: "?item = Min (set q)" using ne by (rule heap_min_Min)
  have item_in: "?item \<in> set q" using ne by (rule heap_min_in)
  then have item: "?item = ?pr node" and nodeR: "node \<in> ?R"
    using i5 nd by auto
  have least: "?item \<le> ?pr m" if "m \<in> ?R" for m
  proof -
    have "?pr m \<in> set q" using that i5 by auto
    then show ?thesis unfolding min by (intro Min_le) simp_all
  qed
  have nodeW: "node \<in> set W" and nodeS: "node \<notin> ?S"
    using nodeR by (auto simp: ready_def)
  have deg_node: "deg node = 0"
    using nodeR i3 [OF nodeW] by (simp add: ready_npreds)
  have rel': "deg' = (\<lambda>n. deg n - (if n \<in> set (adj g node) \<and> n \<in> set W then 1 else 0))"
       "q' = remove1 ?item q @ map ?pr ?new"
    using rel release_followers_eq [of "adj g node" g W dp deg "remove1 ?item q"] dist by simp_all
  have b': "deg' n = int (npreds g W (set (sorted_nodes @ [node])) n)" if "n \<in> set W" for n
    using that i3 [OF that] npreds_insert [OF nodeW nodeS, of g n] by (simp add: rel')
  have new_notS: "f \<notin> ?S" if "f \<in> set (adj g node)" for f
    using ready_earlier [OF i6 _ nodeW that] nodeS by auto
  have ready': "ready g W (set (sorted_nodes @ [node])) = (?R - {node}) \<union> set ?new"
  proof (intro set_eqI iffI)
    fix n assume n: "n \<in> ready g W (set (sorted_nodes @ [node]))"
    then have nW: "n \<in> set W" and nS: "n \<notin> ?S" and nn: "n \<noteq> node"
      and z: "npreds g W (insert node ?S) n = 0"
      by (auto simp: ready_npreds)
    from z npreds_insert [OF nodeW nodeS, of g n]
    have d: "int (npreds g W ?S n) = (if n \<in> set (adj g node) then 1 else 0)" by simp
    show "n \<in> (?R - {node}) \<union> set ?new"
    proof (cases "n \<in> set (adj g node)")
      case True
      with d i3 [OF nW] nW show ?thesis by simp
    next
      case False
      with d nW nS nn show ?thesis by (simp add: ready_npreds)
    qed
  next
    fix n assume "n \<in> (?R - {node}) \<union> set ?new"
    then consider (old) "n \<in> ?R" "n \<noteq> node" | (new) "n \<in> set (adj g node)" "n \<in> set W" "deg n = 1"
      by auto
    then show "n \<in> ready g W (set (sorted_nodes @ [node]))"
    proof cases
      case old
      then have "n \<notin> set (adj g node)" using nodeW nodeS by (auto simp: ready_def)
      with old npreds_insert [OF nodeW nodeS, of g n] show ?thesis
        by (simp add: ready_npreds)
    next
      case new
      have "n \<noteq> node" using new(3) deg_node by auto
      moreover have "n \<notin> ?S" using new_notS [OF new(1)] .
      moreover have "npreds g W (insert node ?S) n = 0"
        using npreds_insert [OF nodeW nodeS, of g n] i3 [OF new(2)] new by simp
      ultimately show ?thesis using new(2) by (simp add: ready_npreds)
    qed
  qed
  have set_q': "set q' = ?pr ` ready g W (set (sorted_nodes @ [node]))"
  proof -
    have "set (remove1 ?item q) = ?pr ` (?R - {node})"
      using i4 i5 item by (auto simp: set_remove1_eq)
    then show ?thesis unfolding rel' ready' by (simp add: image_Un)
  qed
  have dist_q': "distinct q'"
  proof -
    have "distinct (map ?pr ?new)"
      using dist by (simp add: distinct_map inj_on_def)
    moreover have "set (remove1 ?item q) \<inter> set (map ?pr ?new) = {}"
    proof -
      have "deg n = 0" if "?pr n \<in> set q" for n
      proof -
        from that i5 have "n \<in> ?R" by auto
        then show ?thesis using i3 [of n] by (simp add: ready_npreds)
      qed
      then have "?pr n \<notin> set q" if "deg n = 1" for n using that by auto
      then show ?thesis by (auto dest: notin_set_remove1 [rotated] simp: set_remove1_eq i4)
    qed
    ultimately show ?thesis using i4 unfolding rel' by simp
  qed
  have d': "\<forall>i<length (sorted_nodes @ [node]).
              chosen g W dp (set (take i (sorted_nodes @ [node]))) ((sorted_nodes @ [node]) ! i)"
  proof (intro allI impI)
    fix i assume "i < length (sorted_nodes @ [node])"
    then consider "i < length sorted_nodes" | "i = length sorted_nodes" by fastforce
    then show "chosen g W dp (set (take i (sorted_nodes @ [node]))) ((sorted_nodes @ [node]) ! i)"
    proof cases
      case 1
      then show ?thesis using i6 by (simp add: nth_append)
    next
      case 2
      then show ?thesis using nodeR least item by (simp add: chosen_def)
    qed
  qed
  show ?thesis
    unfolding kahn_inv_def
    using i1 i2 nodeW nodeS b' dist_q' set_q' d' by simp
qed

lemma kahn_loop_inv:
  assumes "\<forall>p. distinct (adj g p)" and "kahn_inv g W dp deg q sorted_nodes"
  shows "\<exists>deg'. kahn_inv g W dp deg' [] (kahn_loop g W dp deg q sorted_nodes)"
  using assms
proof (induction g W dp deg q sorted_nodes rule: kahn_loop.induct)
  case (1 g W dp deg q sorted_nodes)
  show ?case
  proof (cases "q = []")
    case True
    then show ?thesis using "1.prems" by (subst kahn_loop.simps) auto
  next
    case False
    obtain deg' q' where rel:
      "release_followers g W dp (adj g (snd (heap_min q))) (deg, remove1 (heap_min q) q) = (deg', q')"
      by (cases "release_followers g W dp (adj g (snd (heap_min q))) (deg, remove1 (heap_min q) q)")
    have "kahn_inv g W dp deg' q' (sorted_nodes @ [snd (heap_min q)])"
      by (rule kahn_step [OF "1.prems" False refl rel])
    then have "\<exists>d. kahn_inv g W dp d [] (kahn_loop g W dp deg' q' (sorted_nodes @ [snd (heap_min q)]))"
      by (intro "1.IH" [OF False _ _ _ _ refl] "1.prems"(1)) (simp_all add: heappop_def rel [symmetric])
    then show ?thesis
      using False by (subst kahn_loop.simps) (simp add: heappop_def rel Let_def)
  qed
qed


lemma initial_queue_eq:
  "initial_queue g dp deg W = map (\<lambda>n. (priority_of g dp n, n)) (filter (\<lambda>n. deg n = 0) W)"
proof -
  have "fold (\<lambda>node queue. if deg node = 0 then heappush queue (priority_of g dp node, node) else queue) xs acc
          = acc @ map (\<lambda>n. (priority_of g dp n, n)) (filter (\<lambda>n. deg n = 0) xs)" for xs acc
    by (induction xs arbitrary: acc) (simp_all add: heappush_def)
  then show ?thesis by (simp add: initial_queue_def)
qed

lemma kahn_inv_initial:
  assumes "\<forall>p. distinct (adj g p)" and "distinct W"
  shows "kahn_inv g W dp (compute_in_degree g W) (initial_queue g dp (compute_in_degree g W) W) []"
proof -
  have deg: "compute_in_degree g W n = int (npreds g W {} n)" if "n \<in> set W" for n
    using assms that by (intro compute_in_degree_eq) auto
  have "{n \<in> set W. compute_in_degree g W n = 0} = ready g W {}"
    using deg by (auto simp: ready_npreds)
  then have "set (initial_queue g dp (compute_in_degree g W) W)
               = (\<lambda>n. (priority_of g dp n, n)) ` ready g W {}"
    by (simp add: initial_queue_eq)
  moreover have "distinct (initial_queue g dp (compute_in_degree g W) W)"
    using assms(2) by (simp add: initial_queue_eq distinct_map inj_on_def)
  ultimately show ?thesis using deg by (simp add: kahn_inv_def)
qed

lemma finite_restrict_edges: "finite X \<Longrightarrow> finite (restrict_edges g X)"
  by (rule finite_subset [of _ "X \<times> X"]) (auto simp: restrict_edges_def)

text \<open>In a finite set where every element has a predecessor, the edges have a cycle.\<close>

lemma pred_closed_cycle:
  assumes "finite A" and "A \<noteq> {}" and "\<forall>a\<in>A. \<exists>p\<in>A. a \<in> set (adj g p)"
  shows "\<exists>c\<in>A. (c, c) \<in> (restrict_edges g A)\<^sup>+"
proof (rule ccontr)
  assume "\<not> ?thesis"
  then have "\<forall>c. (c, c) \<notin> (restrict_edges g A)\<^sup>+"
    by (auto simp: restrict_edges_def dest: tranclD)
  then have "acyclic (restrict_edges g A)" by (simp add: acyclic_def)
  then have "wf (restrict_edges g A)"
    using finite_restrict_edges [OF assms(1)] by (intro finite_acyclic_wf)
  from assms(2) obtain x where "x \<in> A" by auto
  with \<open>wf (restrict_edges g A)\<close> obtain z where z: "z \<in> A" "\<And>y. (y, z) \<in> restrict_edges g A \<Longrightarrow> y \<notin> A"
    by (rule wfE_min) blast
  from assms(3) z(1) obtain p where p: "p \<in> A" "z \<in> set (adj g p)" by auto
  then have "(p, z) \<in> restrict_edges g A" using z(1) by (simp add: restrict_edges_def)
  from z(2) [OF this] p(1) show False by simp
qed

lemma stuck_has_pred:
  assumes "ready g W S = {}" and "n \<in> set W - S"
  shows "\<exists>p\<in>set W - S. n \<in> set (adj g p)"
  using assms by (auto simp: ready_def)

lemma ready_empty_acyclic:
  assumes "ready g W S = {}" and "S \<subseteq> set W" and "acyclic (restrict_edges g (set W))"
  shows "S = set W"
proof (rule ccontr)
  assume "S \<noteq> set W"
  then have ne: "set W - S \<noteq> {}" using assms(2) by auto
  have "\<exists>c\<in>set W - S. (c, c) \<in> (restrict_edges g (set W - S))\<^sup>+"
    using ne stuck_has_pred [OF assms(1)] by (intro pred_closed_cycle) auto
  then obtain c where "(c, c) \<in> (restrict_edges g (set W - S))\<^sup>+" by auto
  moreover have "restrict_edges g (set W - S) \<subseteq> restrict_edges g (set W)"
    by (auto simp: restrict_edges_def)
  ultimately have "(c, c) \<in> (restrict_edges g (set W))\<^sup>+"
    by (meson trancl_mono)
  with assms(3) show False by (simp add: acyclic_def)
qed

lemma before_trancl:
  assumes ch: "\<forall>i<length r. chosen g W dp (set (take i r)) (r ! i)"
    and "(p, n) \<in> (restrict_edges g (set W))\<^sup>+" and "j < length r" and "r ! j = n"
  shows "\<exists>i<j. r ! i = p"
  using assms(2,3,4)
proof (induction arbitrary: j rule: trancl_induct)
  case (base n)
  then have "n \<in> ready g W (set (take j r))" using ch by (auto simp: chosen_def)
  moreover have "p \<in> set W" "n \<in> set (adj g p)" using base by (auto simp: restrict_edges_def)
  ultimately have "p \<in> set (take j r)" by (auto simp: ready_def)
  then show ?case using base.prems by (auto simp: in_set_conv_nth)
next
  case (step m n)
  then have "n \<in> ready g W (set (take j r))" using ch by (auto simp: chosen_def)
  moreover have "m \<in> set W" "n \<in> set (adj g m)" using step by (auto simp: restrict_edges_def)
  ultimately have "m \<in> set (take j r)" by (auto simp: ready_def)
  then obtain k where k: "k < j" "r ! k = m" using step.prems by (auto simp: in_set_conv_nth)
  with step.IH [of k] step.prems obtain i where "i < k" "r ! i = p" by auto
  with k show ?case by (intro exI [of _ i]) auto
qed

lemma cycle_not_sorted:
  assumes "\<forall>i<length r. chosen g W dp (set (take i r)) (r ! i)"
    and "(c, c) \<in> (restrict_edges g (set W))\<^sup>+" and "(c, n) \<in> (restrict_edges g (set W))\<^sup>*"
  shows "n \<notin> set r"
proof
  assume "n \<in> set r"
  then obtain j where j: "j < length r" "r ! j = n" by (auto simp: in_set_conv_nth)
  from assms(3) have "c = n \<or> (c, n) \<in> (restrict_edges g (set W))\<^sup>+"
    by (auto simp: rtrancl_eq_or_trancl)
  then obtain k where k: "k < length r" "r ! k = c"
    using j before_trancl [OF assms(1) _ j] by (metis less_trans)
  have no: "k < length r \<Longrightarrow> r ! k \<noteq> c" for k
  proof (induction k rule: less_induct)
    case (less k)
    show ?case
    proof
      assume "r ! k = c"
      from before_trancl [OF assms(1,2) less.prems this]
      obtain i where i: "i < k" "r ! i = c" by blast
      then have "i < length r" using less.prems by simp
      from less.IH [OF i(1) this] i(2) show False by simp
    qed
  qed
  from no [OF k(1)] k(2) show False by simp
qed

lemma stuck_from_cycle:
  assumes "ready g W S = {}" and "n \<in> set W - S"
  shows "\<exists>c. (c, c) \<in> (restrict_edges g (set W))\<^sup>+ \<and> (c, n) \<in> (restrict_edges g (set W))\<^sup>*"
proof -
  let ?R = "set W - S"
  define A where "A = {a. (a, n) \<in> (restrict_edges g ?R)\<^sup>*}"
  have sub: "restrict_edges g ?R \<subseteq> restrict_edges g (set W)"
    by (auto simp: restrict_edges_def)
  have AR: "A \<subseteq> ?R"
  proof
    fix a assume "a \<in> A"
    then have "(a, n) \<in> (restrict_edges g ?R)\<^sup>*" by (simp add: A_def)
    then show "a \<in> ?R" using assms(2)
      by (induction rule: converse_rtrancl_induct) (auto simp: restrict_edges_def)
  qed
  have nA: "n \<in> A" by (simp add: A_def)
  have fin: "finite A" using AR by (rule finite_subset) simp
  have "\<forall>a\<in>A. \<exists>p\<in>A. a \<in> set (adj g p)"
  proof
    fix a assume a: "a \<in> A"
    with AR have "a \<in> ?R" by auto
    from stuck_has_pred [OF assms(1) this] obtain p where p: "p \<in> ?R" "a \<in> set (adj g p)" by auto
    then have "(p, a) \<in> restrict_edges g ?R" using \<open>a \<in> ?R\<close> by (simp add: restrict_edges_def)
    with a have "p \<in> A" by (auto simp: A_def intro: converse_rtrancl_into_rtrancl)
    with p show "\<exists>p\<in>A. a \<in> set (adj g p)" by auto
  qed
  with fin nA obtain c where c: "c \<in> A" "(c, c) \<in> (restrict_edges g A)\<^sup>+"
    using pred_closed_cycle [of A g] by auto
  have "restrict_edges g A \<subseteq> restrict_edges g (set W)"
    using AR by (auto simp: restrict_edges_def)
  then have "(c, c) \<in> (restrict_edges g (set W))\<^sup>+" using c(2) by (meson trancl_mono)
  moreover have "(c, n) \<in> (restrict_edges g (set W))\<^sup>*"
    using c(1) sub by (auto simp: A_def intro: rtrancl_mono [THEN subsetD])
  ultimately show ?thesis by blast
qed

definition default_priority_of :: "PackageDepGraph \<Rightarrow> string list \<Rightarrow> int" where
  "default_priority_of g W = int (len_dict (order_hint g)) + int (length W) + 5"

lemma kahn_final:
  assumes "kahn_inv g W dp deg [] r"
  shows "distinct r" and "set r \<subseteq> set W" and "ready g W (set r) = {}"
    and "\<forall>i<length r. chosen g W dp (set (take i r)) (r ! i)"
  using assms by (auto simp: kahn_inv_def)

lemma length_eq_iff_set_eq:
  assumes "distinct r" and "distinct W" and "set r \<subseteq> set W"
  shows "length r = length W \<longleftrightarrow> set r = set W"
proof
  assume "length r = length W"
  then have "card (set r) = card (set W)" using assms by (simp add: distinct_card)
  then show "set r = set W" using assms(3) by (intro card_subset_eq) auto
next
  assume "set r = set W"
  then have "card (set r) = card (set W)" by simp
  then show "length r = length W" using assms by (simp add: distinct_card)
qed

lemma topo_sort_run:
  assumes "wf_graph g" and "set s \<subseteq> set (nodes g)"
  shows "\<exists>W r deg.
           closure_loop g (rev s) [] = Inr W \<and> distinct W \<and> set W = closure_of g s \<and>
           kahn_inv g W (default_priority_of g W) deg [] r \<and>
           topo_sort g (Some s) incl =
             (if set r \<noteq> set W then Inl (ValueError (sort (filter (\<lambda>n. n \<notin> set r) W)))
              else if incl then Inr r else Inr (filter (\<lambda>node. node \<in> set s) r))"
proof -
  from closure_loop_closure [OF assms] obtain W where
    W: "closure_loop g (rev s) [] = Inr W" "distinct W" "set W = closure_of g s" by blast
  let ?dp = "default_priority_of g W"
  let ?deg = "compute_in_degree g W"
  let ?r = "kahn_loop g W ?dp ?deg (initial_queue g ?dp ?deg W) []"
  have dist: "\<forall>p. distinct (adj g p)" using assms(1) by (simp add: wf_graph_def)
  from kahn_loop_inv [OF dist kahn_inv_initial [OF dist W(2)]]
  obtain deg' where inv: "kahn_inv g W ?dp deg' [] ?r" by blast
  have len: "length ?r = length W \<longleftrightarrow> set ?r = set W"
    using kahn_final(1,2) [OF inv] W(2) by (intro length_eq_iff_set_eq)
  have "topo_sort g (Some s) incl =
          (if set ?r \<noteq> set W then Inl (ValueError (sort (filter (\<lambda>n. n \<notin> set ?r) W)))
           else if incl then Inr ?r else Inr (filter (\<lambda>node. node \<in> set s) ?r))"
    using len by (simp add: topo_sort_def W(1) Let_def default_priority_of_def)
  with W inv show ?thesis by blast
qed

text \<open>
  C1. For a graph as the builder makes it and a requested subset of known packages:
  if the backward prerequisite closure of the subset has no cycle,
  \<^verbatim>\<open>topo_sort(subset, include_dependencies=True)\<close> returns a list that holds every
  node of the closure exactly once, and every prerequisite of its \<open>i\<close>-th node stands
  among the first \<open>i\<close> nodes; if the closure has a cycle, it raises the "cycle detected"
  \<^verbatim>\<open>ValueError\<close>, whose sorted name list is exactly the set of closure nodes that
  lie on a cycle or depend on one, which are the nodes that cannot be ordered.
\<close>

theorem topo_sort_closure_order:
  assumes "wf_graph g" and "set s \<subseteq> set (nodes g)"
  shows "(acyclic (closure_edges g s) \<longrightarrow>
            (\<exists>r. topo_sort g (Some s) True = Inr r \<and> distinct r \<and> set r = closure_of g s \<and>
                 (\<forall>i<length r. \<forall>p. (p, r ! i) \<in> edges g \<longrightarrow> p \<in> set (take i r))))
       \<and> (\<not> acyclic (closure_edges g s) \<longrightarrow>
            (\<exists>names. topo_sort g (Some s) True = Inl (ValueError names) \<and>
                 sorted names \<and> distinct names \<and>
                 set names = {n \<in> closure_of g s.
                    \<exists>c. (c, c) \<in> (closure_edges g s)\<^sup>+ \<and> (c, n) \<in> (closure_edges g s)\<^sup>*}))"
proof -
  from topo_sort_run [OF assms, of True] obtain W r deg where
    W: "distinct W" "set W = closure_of g s"
    and inv: "kahn_inv g W (default_priority_of g W) deg [] r"
    and res: "topo_sort g (Some s) True =
                (if set r \<noteq> set W then Inl (ValueError (sort (filter (\<lambda>n. n \<notin> set r) W)))
                 else Inr r)"
    by auto
  note fin = kahn_final [OF inv]
  have E: "closure_edges g s = restrict_edges g (set W)"
    by (simp add: closure_edges_def W(2))
  show ?thesis
  proof (intro conjI impI)
    assume "acyclic (closure_edges g s)"
    then have eq: "set r = set W"
      using fin(2,3) unfolding E by (intro ready_empty_acyclic)
    have ord: "p \<in> set (take i r)" if "i < length r" "(p, r ! i) \<in> edges g" for i p
    proof -
      have "r ! i \<in> closure_of g s" using that(1) eq W(2) by (metis nth_mem)
      then have "p \<in> set W" using that(2) W(2) by (auto intro: closure_of_pred)
      moreover have "r ! i \<in> ready g W (set (take i r))"
        using fin(4) that(1) by (simp add: chosen_def)
      ultimately show ?thesis using that(2) by (auto simp: ready_def edges_def)
    qed
    show "\<exists>r. topo_sort g (Some s) True = Inr r \<and> distinct r \<and> set r = closure_of g s \<and>
              (\<forall>i<length r. \<forall>p. (p, r ! i) \<in> edges g \<longrightarrow> p \<in> set (take i r))"
      using res eq fin(1) W(2) ord by (intro exI [of _ r]) simp
  next
    assume "\<not> acyclic (closure_edges g s)"
    then obtain c where c: "(c, c) \<in> (restrict_edges g (set W))\<^sup>+"
      unfolding E by (auto simp: acyclic_def)
    then have "c \<in> set W" by (auto dest!: tranclD simp: restrict_edges_def)
    moreover have "c \<notin> set r" using cycle_not_sorted [OF fin(4) c] by simp
    ultimately have neq: "set r \<noteq> set W" by auto
    let ?names = "sort (filter (\<lambda>n. n \<notin> set r) W)"
    have "set ?names = {n \<in> set W. \<exists>c. (c, c) \<in> (restrict_edges g (set W))\<^sup>+
                                   \<and> (c, n) \<in> (restrict_edges g (set W))\<^sup>*}"
    proof (intro set_eqI iffI)
      fix n assume "n \<in> set ?names"
      then have "n \<in> set W - set r" by simp
      from stuck_from_cycle [OF fin(3) this] this
      show "n \<in> {n \<in> set W. \<exists>c. (c, c) \<in> (restrict_edges g (set W))\<^sup>+
                                   \<and> (c, n) \<in> (restrict_edges g (set W))\<^sup>*}" by simp
    next
      fix n assume "n \<in> {n \<in> set W. \<exists>c. (c, c) \<in> (restrict_edges g (set W))\<^sup>+
                                   \<and> (c, n) \<in> (restrict_edges g (set W))\<^sup>*}"
      then obtain c where "n \<in> set W" "(c, c) \<in> (restrict_edges g (set W))\<^sup>+"
        "(c, n) \<in> (restrict_edges g (set W))\<^sup>*" by blast
      with cycle_not_sorted [OF fin(4) this(2,3)] show "n \<in> set ?names" by simp
    qed
    moreover have "sorted ?names" "distinct ?names" using W(1) by simp_all
    ultimately show "\<exists>names. topo_sort g (Some s) True = Inl (ValueError names) \<and>
                 sorted names \<and> distinct names \<and>
                 set names = {n \<in> closure_of g s.
                    \<exists>c. (c, c) \<in> (closure_edges g s)\<^sup>+ \<and> (c, n) \<in> (closure_edges g s)\<^sup>*}"
      using res neq unfolding E W(2) [symmetric] by (intro exI [of _ ?names]) simp
  qed
qed

text \<open>
  Every graph that \<^verbatim>\<open>build_from_control_dirs\<close> makes from a fresh
  \<^verbatim>\<open>PackageDepGraph\<close> is well formed, whatever the control files hold.
\<close>

definition built_graph :: "PackageDepGraph \<Rightarrow> bool" where
  "built_graph g = (wf_graph g \<and> set (nodes g) = fst ` set (package_dirs g))"

lemma wf_graph_init: "built_graph (init_graph dirs hint)"
  by (simp add: built_graph_def wf_graph_def init_graph_def)

lemma wf_graph_add_edge:
  assumes "wf_graph g" and "prereq \<in> set (nodes g)" and "dependent \<in> set (nodes g)"
  shows "wf_graph (add_edge prereq dependent g)"
  using assms unfolding wf_graph_def add_edge_def set_add_def
  by (auto split: if_splits)

lemma built_graph_note_dependency:
  assumes "built_graph g" and "pkg \<in> set (nodes g)"
  shows "built_graph (note_dependency pkg dep_pkg g)"
proof -
  have same: "nodes (add_edge a b g) = nodes g" "package_dirs (add_edge a b g) = package_dirs g" for a b
    by (simp_all add: add_edge_def)
  show ?thesis
  proof (cases "dep_pkg \<in> fst ` set (package_dirs g)")
    case True
    then have "dep_pkg \<in> set (nodes g)" using assms(1) by (simp add: built_graph_def)
    then have "wf_graph (add_edge dep_pkg pkg g)"
      using assms by (intro wf_graph_add_edge) (auto simp: built_graph_def)
    then show ?thesis using True assms(1) by (auto simp: note_dependency_def built_graph_def same)
  next
    case False
    have "wf_graph g" using assms(1) by (simp add: built_graph_def)
    then have "wf_graph (g\<lparr>unresolved := u\<rparr>)" for u
      by (simp add: wf_graph_def)
    then show ?thesis using False assms(1) by (simp add: note_dependency_def built_graph_def)
  qed
qed

lemma nodes_note_dependency [simp]: "nodes (note_dependency pkg d g) = nodes g"
  by (simp add: note_dependency_def add_edge_def)

lemma built_graph_fold_note:
  "built_graph g \<Longrightarrow> pkg \<in> set (nodes g) \<Longrightarrow>
   built_graph (fold (note_dependency pkg) ds g) \<and> nodes (fold (note_dependency pkg) ds g) = nodes g"
  by (induction ds arbitrary: g) (simp_all add: built_graph_note_dependency)

lemma built_graph_scan_field:
  "built_graph g \<Longrightarrow> pkg \<in> set (nodes g) \<Longrightarrow>
   built_graph (scan_field pkg st field g) \<and> nodes (scan_field pkg st field g) = nodes g"
  by (auto simp: scan_field_def built_graph_fold_note split: option.splits)

lemma built_graph_fold_field:
  "built_graph g \<Longrightarrow> pkg \<in> set (nodes g) \<Longrightarrow>
   built_graph (fold (scan_field pkg st) fs g) \<and> nodes (fold (scan_field pkg st) fs g) = nodes g"
  by (induction fs arbitrary: g) (simp_all add: built_graph_scan_field)

lemma built_graph_fold_stanza:
  "built_graph g \<Longrightarrow> pkg \<in> set (nodes g) \<Longrightarrow>
   built_graph (fold (\<lambda>st g. fold (scan_field pkg st) fs g) sts g)
   \<and> nodes (fold (\<lambda>st g. fold (scan_field pkg st) fs g) sts g) = nodes g"
  by (induction sts arbitrary: g) (simp_all add: built_graph_fold_field)

lemma built_graph_scan_package:
  "built_graph g \<Longrightarrow> fst entry \<in> set (nodes g) \<Longrightarrow>
   built_graph (scan_package ct fs entry g) \<and> nodes (scan_package ct fs entry g) = nodes g"
  by (auto simp: scan_package_def built_graph_fold_stanza split: option.splits)

lemma built_graph_fold_package:
  "built_graph g \<Longrightarrow> fst ` set es \<subseteq> set (nodes g) \<Longrightarrow>
   built_graph (fold (scan_package ct fs) es g)"
  by (induction es arbitrary: g) (simp_all add: built_graph_scan_package)

lemma wf_graph_build_from_control_dirs:
  "wf_graph (build_from_control_dirs ct names (init_graph dirs hint))"
proof -
  have "built_graph (build_from_control_dirs ct names (init_graph dirs hint))"
    unfolding build_from_control_dirs_def Let_def
    by (rule built_graph_fold_package [OF wf_graph_init]) (simp add: init_graph_def)
  then show ?thesis by (simp add: built_graph_def)
qed

text \<open>The three-package graph with the extra edge A \<open>\<rightarrow>\<close> B, which closes a cycle.\<close>

definition cyclic_graph :: PackageDepGraph where
  "cyclic_graph = add_edge ''A'' ''B'' abc_graph"

lemma wf_abc: "wf_graph abc_graph"
  unfolding abc_graph_def by (rule wf_graph_build_from_control_dirs)

lemma wf_cyclic: "wf_graph cyclic_graph"
  unfolding cyclic_graph_def by (rule wf_graph_add_edge [OF wf_abc]) (simp_all add: abc_graph_eq)

theorem topo_sort_closure_order_witness:
  "wf_graph abc_graph \<and> set [''A''] \<subseteq> set (nodes abc_graph)
   \<and> acyclic (closure_edges abc_graph [''A''])
   \<and> (\<exists>r. topo_sort abc_graph (Some [''A'']) True = Inr r \<and> distinct r
          \<and> set r = closure_of abc_graph [''A'']
          \<and> (\<forall>i<length r. \<forall>p. (p, r ! i) \<in> edges abc_graph \<longrightarrow> p \<in> set (take i r)))
   \<and> wf_graph cyclic_graph \<and> set [''C''] \<subseteq> set (nodes cyclic_graph)
   \<and> \<not> acyclic (closure_edges cyclic_graph [''C''])
   \<and> (\<exists>names. topo_sort cyclic_graph (Some [''C'']) True = Inl (ValueError names)
          \<and> sorted names \<and> distinct names
          \<and> set names = {n \<in> closure_of cyclic_graph [''C''].
               \<exists>c. (c, c) \<in> (closure_edges cyclic_graph [''C''])\<^sup>+
                  \<and> (c, n) \<in> (closure_edges cyclic_graph [''C''])\<^sup>*})"
proof -
  have s1: "set [''A''] \<subseteq> set (nodes abc_graph)" by (simp add: abc_graph_eq)
  have s2: "set [''C''] \<subseteq> set (nodes cyclic_graph)"
    by (simp add: cyclic_graph_def add_edge_def abc_graph_eq)
  have r1: "topo_sort abc_graph (Some [''A'']) True = Inr [''B'', ''C'', ''A'']"
    by code_simp
  have r2: "topo_sort cyclic_graph (Some [''C'']) True = Inl (ValueError [''A'', ''B'', ''C''])"
    by code_simp
  note t1 = topo_sort_closure_order [OF wf_abc s1]
  note t2 = topo_sort_closure_order [OF wf_cyclic s2]
  have a1: "acyclic (closure_edges abc_graph [''A''])"
    using t1 r1 by auto
  have a2: "\<not> acyclic (closure_edges cyclic_graph [''C''])"
    using t2 r2 by auto
  from t1 a1 t2 a2 wf_abc wf_cyclic s1 s2 show ?thesis by blast
qed

subsection \<open>Tie-breaking among ready nodes\<close>

text \<open>
  The key by which the heap orders a node, the nodes that are ready once the set \<open>S\<close>
  has been emitted, and graphs that agree as sets (nodes, edges, hints) while their
  enumerations may differ.
\<close>

definition tie_key :: "PackageDepGraph \<Rightarrow> string list \<Rightarrow> string \<Rightarrow> int \<times> string" where
  "tie_key g s n =
     (priority_of g (int (len_dict (order_hint g)) + int (card (closure_of g s)) + 5) n, n)"

definition ready_after :: "PackageDepGraph \<Rightarrow> string list \<Rightarrow> string set \<Rightarrow> string set" where
  "ready_after g s S = {n \<in> closure_of g s - S. \<forall>p. n \<in> set (adj g p) \<longrightarrow> p \<in> S}"

definition same_content :: "PackageDepGraph \<Rightarrow> PackageDepGraph \<Rightarrow> bool" where
  "same_content g g' =
     (wf_graph g' \<and> set (nodes g') = set (nodes g) \<and> (\<forall>n. set (adj g' n) = set (adj g n)) \<and>
      map_of (order_hint g') = map_of (order_hint g) \<and>
      len_dict (order_hint g') = len_dict (order_hint g))"

lemma ready_closure:
  assumes "set W = closure_of g s"
  shows "ready g W S = ready_after g s S"
  using assms closure_of_pred [of _ g s]
  by (auto simp: ready_def ready_after_def edges_def)

lemma tie_key_closure:
  assumes "set W = closure_of g s" and "distinct W"
  shows "(priority_of g (default_priority_of g W) n, n) = tie_key g s n"
  using assms by (simp add: tie_key_def default_priority_of_def distinct_card [symmetric])

lemma chosen_unique:
  assumes r: "\<forall>i<length r. chosen g W dp (set (take i r)) (r ! i)" "ready g W (set r) = {}"
    and r': "\<forall>i<length r'. chosen g W dp (set (take i r')) (r' ! i)" "ready g W (set r') = {}"
  shows "r = r'"
proof -
  have pre: "i \<le> length r \<Longrightarrow> i \<le> length r' \<Longrightarrow> take i r = take i r'" for i
  proof (induction i)
    case 0
    then show ?case by simp
  next
    case (Suc i)
    then have eq: "take i r = take i r'" and i: "i < length r" "i < length r'" by simp_all
    from r(1) i(1) have a: "chosen g W dp (set (take i r)) (r ! i)" by simp
    from r'(1) i(2) have b: "chosen g W dp (set (take i r)) (r' ! i)" by (simp add: eq)
    from a b have "(priority_of g dp (r ! i), r ! i) \<le> (priority_of g dp (r' ! i), r' ! i)"
      and "(priority_of g dp (r' ! i), r' ! i) \<le> (priority_of g dp (r ! i), r ! i)"
      by (simp_all add: chosen_def)
    then have "(priority_of g dp (r ! i), r ! i) = (priority_of g dp (r' ! i), r' ! i)"
      by (rule antisym)
    then have "r ! i = r' ! i" by simp
    then show ?case using eq i by (simp add: take_Suc_conv_app_nth)
  qed
  have no_longer: "\<not> length a < length b"
    if "\<forall>i<length b. chosen g W dp (set (take i b)) (b ! i)" "ready g W (set a) = {}"
      "\<And>i. i \<le> length a \<Longrightarrow> i \<le> length b \<Longrightarrow> take i a = take i b" for a b
  proof
    assume l: "length a < length b"
    then have "take (length a) a = take (length a) b" by (intro that(3)) simp_all
    then have "a = take (length a) b" by simp
    moreover have "b ! length a \<in> ready g W (set (take (length a) b))"
      using that(1) l by (simp add: chosen_def)
    ultimately show False using that(2) by auto
  qed
  have "\<not> length r < length r'" using no_longer [OF r'(1) r(2)] pre by blast
  moreover have "\<not> length r' < length r" using no_longer [OF r(1) r'(2)] pre [symmetric] by blast
  ultimately have "length r = length r'" by simp
  with pre [of "length r"] show ?thesis by simp
qed

lemma closure_of_same:
  assumes "\<forall>n. set (adj g' n) = set (adj g n)" and "set s' = set s"
  shows "closure_of g' s' = closure_of g s"
proof -
  have "edges g' = edges g" using assms(1) by (simp add: edges_def)
  then show ?thesis using assms(2) by (simp add: closure_of_def)
qed

lemma topo_sort_Inr_run:
  assumes "wf_graph g" and "set s \<subseteq> set (nodes g)" and "topo_sort g (Some s) True = Inr r"
  shows "\<exists>W deg. distinct W \<and> set W = closure_of g s \<and>
           kahn_inv g W (default_priority_of g W) deg [] r \<and> set r = set W"
proof -
  from topo_sort_run [OF assms(1,2), of True] obtain W r0 deg where
    W: "distinct W" "set W = closure_of g s"
    and inv: "kahn_inv g W (default_priority_of g W) deg [] r0"
    and res: "topo_sort g (Some s) True =
                (if set r0 \<noteq> set W then Inl (ValueError (sort (filter (\<lambda>n. n \<notin> set r0) W)))
                 else Inr r0)"
    by auto
  from res assms(3) have "set r0 = set W \<and> r0 = r" by (auto split: if_splits)
  with W inv show ?thesis by blast
qed


lemma ready_same:
  assumes "\<forall>n. set (adj g' n) = set (adj g n)" and "set W' = set W"
  shows "ready g' W' S = ready g W S"
  using assms by (simp add: ready_def)

lemma chosen_same:
  assumes "\<forall>n. set (adj g' n) = set (adj g n)" and "set W' = set W"
    and "map_of (order_hint g') = map_of (order_hint g)"
  shows "chosen g' W' dp S n = chosen g W dp S n"
  using assms by (simp add: chosen_def ready_same [OF assms(1,2)] priority_of_def)

text \<open>
  C9 (as the code has it). At every position of the result the emitted node is ready
  (in the closure, not yet emitted, all prerequisites emitted) and has the least key
  \<open>(priority, name)\<close> among the ready nodes: the priority is the hint value of a hinted
  node and \<open>len(order_hint) + len(working_nodes) + 5\<close>, which exceeds the number of
  hints, for a node without a hint; equal priorities, so all nodes without a hint among
  themselves, are ordered by package name. The result is the same for every graph with
  the same node, edge and hint content and every subset with the same elements, however
  the sets are enumerated.
\<close>

theorem topo_sort_tie_break:
  assumes "wf_graph g" and "set s \<subseteq> set (nodes g)" and "topo_sort g (Some s) True = Inr r"
  shows "(\<forall>i<length r. r ! i \<in> ready_after g s (set (take i r)) \<and>
            (\<forall>m\<in>ready_after g s (set (take i r)). tie_key g s (r ! i) \<le> tie_key g s m))
       \<and> (\<forall>a b. (tie_key g s a \<le> tie_key g s b) =
                  (fst (tie_key g s a) < fst (tie_key g s b) \<or>
                   (fst (tie_key g s a) = fst (tie_key g s b) \<and> a \<le> b)))
       \<and> (\<forall>n h. map_of (order_hint g) n = Some h \<longrightarrow> fst (tie_key g s n) = h)
       \<and> (\<forall>n. map_of (order_hint g) n = None \<longrightarrow>
                 fst (tie_key g s n) = int (len_dict (order_hint g)) + int (card (closure_of g s)) + 5)
       \<and> (\<forall>g' s'. same_content g g' \<and> set s' = set s \<longrightarrow> topo_sort g' (Some s') True = Inr r)"
proof -
  from topo_sort_Inr_run [OF assms] obtain W deg where
    W: "distinct W" "set W = closure_of g s"
    and inv: "kahn_inv g W (default_priority_of g W) deg [] r" and full: "set r = set W"
    by blast
  note fin = kahn_final [OF inv]
  have p1: "\<forall>i<length r. r ! i \<in> ready_after g s (set (take i r)) \<and>
            (\<forall>m\<in>ready_after g s (set (take i r)). tie_key g s (r ! i) \<le> tie_key g s m)"
    using fin(4) by (simp add: chosen_def ready_closure [OF W(2)] tie_key_closure [OF W(2,1)])
  have p2: "\<forall>a b. (tie_key g s a \<le> tie_key g s b) =
                  (fst (tie_key g s a) < fst (tie_key g s b) \<or>
                   (fst (tie_key g s a) = fst (tie_key g s b) \<and> a \<le> b))"
    by (auto simp: tie_key_def less_eq_prod_def)
  have p3: "\<forall>n h. map_of (order_hint g) n = Some h \<longrightarrow> fst (tie_key g s n) = h"
    and p4: "\<forall>n. map_of (order_hint g) n = None \<longrightarrow>
                 fst (tie_key g s n) = int (len_dict (order_hint g)) + int (card (closure_of g s)) + 5"
    by (simp_all add: tie_key_def priority_of_def)
  have p5: "topo_sort g' (Some s') True = Inr r" if sc: "same_content g g'" and ss: "set s' = set s" for g' s'
  proof -
    from sc have wf': "wf_graph g'" and nd: "set (nodes g') = set (nodes g)"
      and ad: "\<forall>n. set (adj g' n) = set (adj g n)"
      and hm: "map_of (order_hint g') = map_of (order_hint g)"
      and hl: "len_dict (order_hint g') = len_dict (order_hint g)"
      by (simp_all add: same_content_def)
    have sub': "set s' \<subseteq> set (nodes g')" using assms(2) ss nd by simp
    from topo_sort_run [OF wf' sub', of True] obtain W' r' deg' where
      W': "distinct W'" "set W' = closure_of g' s'"
      and inv': "kahn_inv g' W' (default_priority_of g' W') deg' [] r'"
      and res': "topo_sort g' (Some s') True =
                (if set r' \<noteq> set W' then Inl (ValueError (sort (filter (\<lambda>n. n \<notin> set r') W')))
                 else Inr r')"
      by auto
    have sW: "set W' = set W" using W'(2) W(2) closure_of_same [OF ad ss] by simp
    then have "length W' = length W" using W(1) W'(1) by (metis distinct_card)
    then have dp: "default_priority_of g' W' = default_priority_of g W"
      by (simp add: default_priority_of_def hl)
    note fin' = kahn_final [OF inv']
    have c': "\<forall>i<length r'. chosen g W (default_priority_of g W) (set (take i r')) (r' ! i)"
      using fin'(4) by (simp add: dp chosen_same [OF ad sW hm])
    have e': "ready g W (set r') = {}"
      using fin'(3) by (simp add: ready_same [OF ad sW])
    have "r = r'" using fin(4) fin(3) c' e' by (rule chosen_unique)
    then show ?thesis using res' full sW by simp
  qed
  from p1 p2 p3 p4 p5 show ?thesis by blast
qed

text \<open>
  Three packages without edges and without hints, requested as \<open>[b, c, a]\<close>: the closure
  loop discovers them in the order \<open>a, c, b\<close>, the package directories list them as
  \<open>c, a, b\<close>, and \<^verbatim>\<open>topo_sort\<close> emits them by name.
\<close>

definition flat_graph :: PackageDepGraph where
  "flat_graph = init_graph [(''c'', ''/ws/c''), (''a'', ''/ws/a''), (''b'', ''/ws/b'')] []"

theorem topo_sort_discovery_order_counterexample:
  "closure_loop flat_graph (rev [''b'', ''c'', ''a'']) [] = Inr [''a'', ''c'', ''b'']
   \<and> map_of (order_hint flat_graph) = Map.empty
   \<and> topo_sort flat_graph (Some [''b'', ''c'', ''a'']) True = Inr [''a'', ''b'', ''c'']
   \<and> topo_sort flat_graph (Some [''b'', ''c'', ''a'']) True \<noteq> Inr [''a'', ''c'', ''b'']"
proof -
  have "closure_loop flat_graph (rev [''b'', ''c'', ''a'']) [] = Inr [''a'', ''c'', ''b'']"
    by code_simp
  moreover have "topo_sort flat_graph (Some [''b'', ''c'', ''a'']) True = Inr [''a'', ''b'', ''c'']"
    by code_simp
  moreover have "map_of (order_hint flat_graph) = Map.empty"
    by (simp add: flat_graph_def init_graph_def)
  ultimately show ?thesis by simp
qed

text \<open>The same content as \<open>abc_graph\<close> with every set enumerated in another order, and a hint for C.\<close>

definition hinted_graph :: PackageDepGraph where
  "hinted_graph = (add_edge ''C'' ''A'' (add_edge ''B'' ''A'' (init_graph
      [(''A'', ''/ws/A''), (''B'', ''/ws/B''), (''C'', ''/ws/C'')] [(''C'', 0)])))"

definition hinted_graph' :: PackageDepGraph where
  "hinted_graph' = (add_edge ''B'' ''A'' (add_edge ''C'' ''A'' (init_graph
      [(''C'', ''/ws/C''), (''B'', ''/ws/B''), (''A'', ''/ws/A'')] [(''C'', 0)])))"

lemma wf_graph_init_graph: "wf_graph (init_graph dirs hint)"
  using wf_graph_init [of dirs hint] by (simp add: built_graph_def)

lemma wf_hinted: "wf_graph hinted_graph"
  unfolding hinted_graph_def
  by (intro wf_graph_add_edge wf_graph_init_graph) (simp_all add: add_edge_def init_graph_def)

lemma wf_hinted': "wf_graph hinted_graph'"
  unfolding hinted_graph'_def
  by (intro wf_graph_add_edge wf_graph_init_graph) (simp_all add: add_edge_def init_graph_def)

lemma same_hinted: "same_content hinted_graph hinted_graph'"
  unfolding same_content_def
  by (simp add: wf_hinted') (auto simp: hinted_graph_def hinted_graph'_def add_edge_def init_graph_def set_add_def len_dict_def)

theorem topo_sort_tie_break_witness:
  "wf_graph hinted_graph \<and> set [''A''] \<subseteq> set (nodes hinted_graph)
   \<and> topo_sort hinted_graph (Some [''A'']) True = Inr [''C'', ''B'', ''A'']
   \<and> ''C'' \<in> ready_after hinted_graph [''A''] {} \<and> ''B'' \<in> ready_after hinted_graph [''A''] {}
   \<and> tie_key hinted_graph [''A''] ''C'' \<le> tie_key hinted_graph [''A''] ''B''
   \<and> fst (tie_key hinted_graph [''A''] ''C'') = 0
   \<and> fst (tie_key hinted_graph [''A''] ''B'') = 1 + int (card (closure_of hinted_graph [''A''])) + 5
   \<and> same_content hinted_graph hinted_graph' \<and> set [''A'', ''A''] = set [''A'']
   \<and> topo_sort hinted_graph' (Some [''A'', ''A'']) True = Inr [''C'', ''B'', ''A'']"
proof -
  have s: "set [''A''] \<subseteq> set (nodes hinted_graph)"
    by (simp add: hinted_graph_def add_edge_def init_graph_def)
  have r: "topo_sort hinted_graph (Some [''A'']) True = Inr [''C'', ''B'', ''A'']"
    by code_simp
  note t = topo_sort_tie_break [OF wf_hinted s r]
  from t have every: "\<forall>i<length [''C'', ''B'', ''A''].
      [''C'', ''B'', ''A''] ! i \<in> ready_after hinted_graph [''A''] (set (take i [''C'', ''B'', ''A''])) \<and>
      (\<forall>m\<in>ready_after hinted_graph [''A''] (set (take i [''C'', ''B'', ''A''])).
          tie_key hinted_graph [''A''] ([''C'', ''B'', ''A''] ! i) \<le> tie_key hinted_graph [''A''] m)"
    by blast
  from every [rule_format, of 0]
  have c: "''C'' \<in> ready_after hinted_graph [''A''] {}"
    and least: "\<forall>m\<in>ready_after hinted_graph [''A''] {}.
                  tie_key hinted_graph [''A''] ''C'' \<le> tie_key hinted_graph [''A''] m"
    by simp_all
  have clB: "''B'' \<in> closure_of hinted_graph [''A'']"
    by (auto simp: closure_of_def edges_def hinted_graph_def add_edge_def init_graph_def set_add_def)
  have b: "''B'' \<in> ready_after hinted_graph [''A''] {}"
    using clB by (auto simp: ready_after_def hinted_graph_def add_edge_def init_graph_def set_add_def split: if_splits)
  from least b have le: "tie_key hinted_graph [''A''] ''C'' \<le> tie_key hinted_graph [''A''] ''B''"
    by blast
  have hC: "map_of (order_hint hinted_graph) ''C'' = Some 0"
    and hB: "map_of (order_hint hinted_graph) ''B'' = None"
    and ln: "len_dict (order_hint hinted_graph) = 1"
    by (simp_all add: hinted_graph_def add_edge_def init_graph_def len_dict_def)
  from t hC have kC: "fst (tie_key hinted_graph [''A''] ''C'') = 0" by blast
  from t have "\<forall>n. map_of (order_hint hinted_graph) n = None \<longrightarrow>
      fst (tie_key hinted_graph [''A''] n) =
        int (len_dict (order_hint hinted_graph)) + int (card (closure_of hinted_graph [''A''])) + 5"
    by blast
  with hB ln have kB: "fst (tie_key hinted_graph [''A''] ''B'') = 1 + int (card (closure_of hinted_graph [''A''])) + 5"
    by simp
  from t have "\<forall>g' s'. same_content hinted_graph g' \<and> set s' = set [''A''] \<longrightarrow>
      topo_sort g' (Some s') True = Inr [''C'', ''B'', ''A'']"
    by blast
  from this [rule_format, of hinted_graph' "[''A'', ''A'']"] same_hinted
  have d: "topo_sort hinted_graph' (Some [''A'', ''A'']) True = Inr [''C'', ''B'', ''A'']"
    by simp
  from wf_hinted s r c b le kC kB same_hinted d show ?thesis by simp
qed

section \<open>Persistent queue store (agiros\_tools\_menu.py)\<close>

text \<open>
  A path is the text \<^verbatim>\<open>str(path)\<close>. \<open>path_name\<close> is \<^verbatim>\<open>PurePosixPath(p).name\<close>:
  the last component, where empty components and single dots do not count; it is empty
  for the root and for the current directory.
\<close>

definition path_name :: "path \<Rightarrow> string" where
  "path_name p =
     (case filter (\<lambda>c. c \<noteq> [] \<and> c \<noteq> ''.'') (split_on (CHR ''/'') p) of
        [] \<Rightarrow> []
      | c # cs \<Rightarrow> last (c # cs))"

record BuildTask =
  display_name :: string
  path :: path
  kind :: string
  extra_args :: "string list"

text \<open>
  JSON values as \<^verbatim>\<open>json.loads\<close> hands them out (numbers are integers here). The
  metadata file is modelled by the value it holds: \<^verbatim>\<open>json.dumps\<close> followed by
  \<^verbatim>\<open>json.loads\<close> gives back the dictionaries, lists and strings written.
\<close>

datatype json =
    JNull
  | JBool bool
  | JNum int
  | JStr string
  | JArr "json list"
  | JObj "(string \<times> json) list"


record MenuState =
  build_queue :: "BuildTask list"
  queue_packages :: "string list"
  package_status :: "string \<rightharpoonup> bool"
  queue_file :: "string option"
  queue_meta_file :: "json option"
  code_dir :: path









subsection \<open>Loading\<close>








text \<open>The body of \<^verbatim>\<open>for pkg, info in legacy_meta.items()\<close>: lines 443 to 455.\<close>

definition kinds_json :: "(string \<times> string list) list \<Rightarrow> (string \<times> json) list" where
  "kinds_json kinds = map (\<lambda>(k, extra). (k, JObj [(''extra_args'', JArr (map JStr extra))])) kinds"





subsection \<open>Merging inline records into the structured map\<close>

















subsection \<open>Inline and map records of one package on load\<close>














































subsection \<open>Saving and adding\<close>

definition task_name :: "BuildTask \<Rightarrow> string" where
  "task_name task = path_name (path task)"

definition task_key :: "BuildTask \<Rightarrow> string \<times> string" where
  "task_key task = (task_name task, kind task)"

text \<open>The first loop of \<^verbatim>\<open>save_queue\<close>: one task for each \<open>(package, kind)\<close>.\<close>

fun dedup_tasks :: "(string \<times> string) set \<Rightarrow> BuildTask list \<Rightarrow> BuildTask list" where
  "dedup_tasks seen [] = []"
| "dedup_tasks seen (task # tasks) =
     (let package_name = task_name task; key = (package_name, kind task) in
      if key \<in> seen then dedup_tasks seen tasks
      else task\<lparr>display_name := package_name\<rparr> # dedup_tasks (insert key seen) tasks)"

definition append_missing :: "string list \<Rightarrow> BuildTask list \<Rightarrow> string list" where
  "append_missing package_order tasks =
     fold (\<lambda>task po. if task_name task \<notin> set po then po @ [task_name task] else po)
       tasks package_order"

text \<open>\<^verbatim>\<open>_write_queue_file\<close>: one line for each package, with the completion marker.\<close>

definition write_queue_file :: "string list \<Rightarrow> (string \<rightharpoonup> bool) \<Rightarrow> string" where
  "write_queue_file packages status =
     concat (map (\<lambda>pkg. pkg @ (if status pkg = Some True then ''#'' else []) @ ''\<newline>'') packages)"

text \<open>
  \<^verbatim>\<open>_write_meta_from_tasks\<close>: the dictionary is built with its entries typed (path,
  kinds with their extra arguments) and written as JSON.
\<close>

type_synonym meta_entries = "(string \<times> path \<times> (string \<times> string list) list) list"

definition meta_step :: "BuildTask \<Rightarrow> meta_entries \<Rightarrow> meta_entries" where
  "meta_step task meta =
     (let entry = (case map_of meta (display_name task) of None \<Rightarrow> (path task, []) | Some e \<Rightarrow> e)
      in dict_set (display_name task)
           (path task, dict_set (kind task) (extra_args task) (snd entry)) meta)"

definition meta_json :: "meta_entries \<Rightarrow> json" where
  "meta_json meta =
     JObj (map (\<lambda>(name, p, kinds).
                  (name, JObj [(''path'', JStr p), (''kinds'', JObj (kinds_json kinds))])) meta)"

definition write_meta_from_tasks :: "BuildTask list \<Rightarrow> json" where
  "write_meta_from_tasks tasks = meta_json (fold meta_step tasks [])"

definition save_queue :: "BuildTask list option \<Rightarrow> MenuState \<Rightarrow> MenuState" where
  "save_queue tasks_arg st =
     (let tasks = dedup_tasks {} (case tasks_arg of None \<Rightarrow> build_queue st | Some ts \<Rightarrow> ts);
          package_order = append_missing (queue_packages st) tasks;
          package_order = filter (\<lambda>pkg. list_ex (\<lambda>t. task_name t = pkg) tasks) package_order;
          status = (\<lambda>pkg. if pkg \<in> set package_order
                          then Some (case package_status st pkg of Some b \<Rightarrow> b | None \<Rightarrow> False)
                          else None)
      in st\<lparr>build_queue := tasks, queue_packages := package_order, package_status := status,
             queue_file := Some (write_queue_file package_order status),
             queue_meta_file := Some (write_meta_from_tasks tasks)\<rparr>)"

text \<open>
  The inner loop of \<^verbatim>\<open>add_tasks\<close>: the first queued task of the same package and
  kind takes the path and the arguments of the new one; \<open>None\<close> when there is none.
\<close>

fun replace_existing :: "BuildTask \<Rightarrow> BuildTask list \<Rightarrow> BuildTask list option" where
  "replace_existing task [] = None"
| "replace_existing task (existing # rest) =
     (if task_name existing = task_name task \<and> kind existing = kind task
      then Some (existing\<lparr>path := path task, extra_args := extra_args task,
                          display_name := task_name task\<rparr> # rest)
      else map_option ((#) existing) (replace_existing task rest))"

definition add_task_step ::
  "bool \<Rightarrow> BuildTask \<Rightarrow> MenuState \<times> nat \<times> nat \<Rightarrow> MenuState \<times> nat \<times> nat" where
  "add_task_step reset_completed task acc =
     (case acc of (st, added, total_count) \<Rightarrow>
        let package_name = task_name task;
            found = replace_existing task (build_queue st);
            replaced = (found \<noteq> None);
            queue = (case found of
                       Some q \<Rightarrow> q
                     | None \<Rightarrow> build_queue st @ [task\<lparr>display_name := package_name\<rparr>]);
            packages = (if package_name \<notin> set (queue_packages st)
                        then queue_packages st @ [package_name] else queue_packages st);
            status = package_status st;
            status = (if \<not> replaced then status(package_name \<mapsto> False)
                      else if reset_completed \<or> status package_name = None
                           then status(package_name \<mapsto> False) else status);
            status = (case status package_name of
                        None \<Rightarrow> status(package_name \<mapsto> False) | Some _ \<Rightarrow> status)
        in (st\<lparr>build_queue := queue, queue_packages := packages, package_status := status\<rparr>,
            (if replaced then added else added + 1), total_count + 1))"

definition add_tasks :: "BuildTask list \<Rightarrow> bool \<Rightarrow> MenuState \<Rightarrow> (nat \<times> nat) \<times> MenuState" where
  "add_tasks tasks reset_completed st =
     (if tasks = [] then ((0, 0), st)
      else case fold (add_task_step reset_completed) tasks (st, 0, 0) of
             (st', added, total_count) \<Rightarrow> ((added, total_count), save_queue None st'))"

subsection \<open>Adding the same tasks twice\<close>

definition norm_task :: "BuildTask \<Rightarrow> BuildTask" where
  "norm_task task = task\<lparr>display_name := task_name task\<rparr>"

definition bq_step :: "BuildTask \<Rightarrow> BuildTask list \<Rightarrow> BuildTask list" where
  "bq_step task queue =
     (case replace_existing task queue of Some q \<Rightarrow> q | None \<Rightarrow> queue @ [norm_task task])"

definition last_task :: "string \<times> string \<Rightarrow> BuildTask list \<Rightarrow> BuildTask option" where
  "last_task k tasks = find (\<lambda>t. task_key t = k) (rev tasks)"

lemma task_name_norm [simp]: "task_name (norm_task t) = task_name t"
  by (simp add: norm_task_def task_name_def)

lemma task_key_norm [simp]: "task_key (norm_task t) = task_key t"
  by (simp add: task_key_def) (simp add: norm_task_def)

lemma norm_task_idem [simp]: "norm_task (norm_task t) = norm_task t"
  by (simp add: norm_task_def task_name_def)

lemma replaced_is_norm:
  "task_name e = task_name t \<Longrightarrow> kind e = kind t \<Longrightarrow>
   e\<lparr>path := path t, extra_args := extra_args t, display_name := task_name t\<rparr> = norm_task t"
  by (cases e, cases t) (simp add: norm_task_def)

lemma find_app:
  "find P (xs @ ys) = (case find P xs of Some x \<Rightarrow> Some x | None \<Rightarrow> find P ys)"
  by (induction xs) simp_all

lemma key_eq_iff: "task_key a = task_key b \<longleftrightarrow> task_name a = task_name b \<and> kind a = kind b"
  by (simp add: task_key_def)

lemma replace_existing_None:
  "replace_existing t B = None \<longleftrightarrow> (\<forall>e\<in>set B. task_key e \<noteq> task_key t)"
  by (induction B) (simp_all add: key_eq_iff)

lemma replace_existing_find:
  "replace_existing t B = Some q \<Longrightarrow>
   find (\<lambda>e. task_key e = k) q =
     (if k = task_key t then Some (norm_task t) else find (\<lambda>e. task_key e = k) B)"
proof (induction B arbitrary: q)
  case Nil
  then show ?case by simp
next
  case (Cons e B)
  show ?case
  proof (cases "task_name e = task_name t \<and> kind e = kind t")
    case True
    then have "q = norm_task t # B" using Cons.prems by (simp add: replaced_is_norm)
    moreover have "task_key e = task_key t" using True by (simp add: task_key_def)
    ultimately show ?thesis by auto
  next
    case False
    then obtain q' where q': "replace_existing t B = Some q'" "q = e # q'"
      using Cons.prems by auto
    have "task_key e \<noteq> task_key t" using False by (auto simp: task_key_def)
    then show ?thesis using Cons.IH [OF q'(1)] q'(2) by auto
  qed
qed

lemma find_bq_step:
  "find (\<lambda>e. task_key e = k) (bq_step t B) =
     (if k = task_key t then Some (norm_task t) else find (\<lambda>e. task_key e = k) B)"
proof (cases "replace_existing t B")
  case None
  then have no: "\<forall>e\<in>set B. task_key e \<noteq> task_key t" by (simp add: replace_existing_None)
  then have "find (\<lambda>e. task_key e = task_key t) B = None" by (simp add: find_None_iff)
  then show ?thesis using None
    by (cases "find (\<lambda>e. task_key e = k) B") (auto simp: bq_step_def find_app)
next
  case (Some q)
  then show ?thesis by (simp add: bq_step_def replace_existing_find)
qed

lemma last_task_Cons:
  "last_task k (t # ts) =
     (case last_task k ts of Some x \<Rightarrow> Some x | None \<Rightarrow> if task_key t = k then Some t else None)"
  by (cases "find (\<lambda>t. task_key t = k) (rev ts)") (auto simp: last_task_def find_app)

lemma find_fold_bq_step:
  "find (\<lambda>e. task_key e = k) (fold bq_step ts B) =
     (case last_task k ts of Some t \<Rightarrow> Some (norm_task t) | None \<Rightarrow> find (\<lambda>e. task_key e = k) B)"
proof (induction ts arbitrary: B)
  case Nil
  then show ?case by (simp add: last_task_def)
next
  case (Cons t ts)
  have "find (\<lambda>e. task_key e = k) (fold bq_step (t # ts) B) =
          (case last_task k ts of Some t' \<Rightarrow> Some (norm_task t')
           | None \<Rightarrow> find (\<lambda>e. task_key e = k) (bq_step t B))"
    by (simp add: Cons.IH)
  then show ?case
  proof (cases "last_task k ts")
    case None
    then show ?thesis by (auto simp: Cons.IH find_bq_step last_task_Cons)
  next
    case (Some a)
    then show ?thesis by (simp add: Cons.IH last_task_Cons)
  qed
qed

lemma last_task_None_iff: "last_task k ts = None \<longleftrightarrow> (\<forall>t\<in>set ts. task_key t \<noteq> k)"
  by (auto simp: last_task_def find_None_iff)

lemma replace_existing_map:
  "distinct (map task_key B) \<Longrightarrow> \<exists>e\<in>set B. task_key e = task_key t \<Longrightarrow>
   replace_existing t B = Some (map (\<lambda>e. if task_key e = task_key t then norm_task t else e) B)"
proof (induction B)
  case Nil
  then show ?case by simp
next
  case (Cons e B)
  show ?case
  proof (cases "task_key e = task_key t")
    case True
    then have m: "task_name e = task_name t" "kind e = kind t" by (simp_all add: key_eq_iff)
    have "task_key e \<notin> task_key ` set B" using Cons.prems(1) by simp
    then have "\<forall>x\<in>set B. task_key x \<noteq> task_key t" using True by (metis imageI)
    then have "map (\<lambda>e. if task_key e = task_key t then norm_task t else e) B = B"
      by (simp add: map_idI)
    then show ?thesis using True m by (simp add: replaced_is_norm)
  next
    case False
    then have nm: "\<not> (task_name e = task_name t \<and> kind e = kind t)" by (simp add: key_eq_iff)
    have ex: "\<exists>e\<in>set B. task_key e = task_key t" using Cons.prems(2) False by auto
    have d: "distinct (map task_key B)" using Cons.prems(1) by simp
    show ?thesis using Cons.IH [OF d ex] nm False by auto
  qed
qed

lemma bq_step_map:
  "distinct (map task_key B) \<Longrightarrow> \<exists>e\<in>set B. task_key e = task_key t \<Longrightarrow>
   bq_step t B = map (\<lambda>e. if task_key e = task_key t then norm_task t else e) B"
  by (simp add: bq_step_def replace_existing_map)

lemma fold_bq_step_map:
  "distinct (map task_key B) \<Longrightarrow> \<forall>t\<in>set ts. \<exists>e\<in>set B. task_key e = task_key t \<Longrightarrow>
   fold bq_step ts B =
     map (\<lambda>e. case last_task (task_key e) ts of Some t \<Rightarrow> norm_task t | None \<Rightarrow> e) B"
proof (induction ts arbitrary: B)
  case Nil
  then show ?case by (simp add: last_task_def)
next
  case (Cons t ts)
  define h where "h = (\<lambda>e. if task_key e = task_key t then norm_task t else e)"
  have hk: "task_key (h e) = task_key e" for e by (simp add: h_def)
  have step: "bq_step t B = map h B" unfolding h_def using Cons.prems by (intro bq_step_map) auto
  have keys: "map task_key (map h B) = map task_key B" by (simp add: hk)
  have d: "distinct (map task_key (map h B))" unfolding keys by (rule Cons.prems(1))
  have ex: "\<forall>t\<in>set ts. \<exists>e\<in>set (map h B). task_key e = task_key t"
  proof
    fix t' assume "t' \<in> set ts"
    then obtain e where "e \<in> set B" "task_key e = task_key t'" using Cons.prems(2) by auto
    then show "\<exists>e\<in>set (map h B). task_key e = task_key t'"
      by (intro bexI [of _ "h e"]) (simp_all add: hk)
  qed
  have "fold bq_step (t # ts) B = fold bq_step ts (map h B)" by (simp add: step)
  also have "\<dots> = map (\<lambda>e. case last_task (task_key e) ts of Some t \<Rightarrow> norm_task t | None \<Rightarrow> e) (map h B)"
    by (rule Cons.IH [OF d ex])
  also have "\<dots> = map (\<lambda>e. case last_task (task_key e) (t # ts) of Some t \<Rightarrow> norm_task t | None \<Rightarrow> e) B"
  proof (simp only: map_map, rule map_cong [OF refl])
    fix e
    show "((\<lambda>e. case last_task (task_key e) ts of Some t \<Rightarrow> norm_task t | None \<Rightarrow> e) \<circ> h) e
            = (case last_task (task_key e) (t # ts) of Some t \<Rightarrow> norm_task t | None \<Rightarrow> e)"
      by (cases "last_task (task_key e) ts") (simp_all add: hk last_task_Cons, simp add: h_def eq_commute)
  qed
  finally show ?case .
qed

lemma find_distinct_self:
  "distinct (map f xs) \<Longrightarrow> e \<in> set xs \<Longrightarrow> find (\<lambda>x. f x = f e) xs = Some e"
  by (induction xs) (auto simp: image_iff)

lemma dedup_tasks_keys:
  "set (map task_key (dedup_tasks seen B)) = task_key ` set B - seen \<and>
   distinct (map task_key (dedup_tasks seen B))"
proof (induction B arbitrary: seen)
  case Nil
  then show ?case by simp
next
  case (Cons e B)
  have k: "(task_name e, kind e) = task_key e" by (simp add: task_key_def)
  have kn: "task_key (e\<lparr>display_name := task_name e\<rparr>) = task_key e"
    using task_key_norm [of e] by (simp add: norm_task_def)
  show ?case
  proof (cases "task_key e \<in> seen")
    case True
    then show ?thesis using Cons.IH [of seen] by (auto simp: Let_def k)
  next
    case False
    then show ?thesis using Cons.IH [of "insert (task_key e) seen"]
      by (auto simp: Let_def k kn)
  qed
qed

lemma dedup_tasks_find:
  "k \<notin> seen \<Longrightarrow>
   find (\<lambda>e. task_key e = k) (dedup_tasks seen B) = map_option norm_task (find (\<lambda>e. task_key e = k) B)"
proof (induction B arbitrary: seen)
  case Nil
  then show ?case by simp
next
  case (Cons e B)
  have k: "(task_name e, kind e) = task_key e" by (simp add: task_key_def)
  have n: "e\<lparr>display_name := task_name e\<rparr> = norm_task e" by (simp add: norm_task_def)
  show ?case
  proof (cases "task_key e \<in> seen")
    case True
    then have "task_key e \<noteq> k" using Cons.prems by auto
    then show ?thesis using True Cons.IH [OF Cons.prems] by (simp add: Let_def k)
  next
    case False
    show ?thesis
    proof (cases "task_key e = k")
      case True
      then show ?thesis using False by (simp add: Let_def k n)
    next
      case ne: False
      then have "k \<notin> insert (task_key e) seen" using Cons.prems by auto
      from Cons.IH [OF this] show ?thesis using False ne by (simp add: Let_def k n)
    qed
  qed
qed

lemma dedup_tasks_normal: "e \<in> set (dedup_tasks seen B) \<Longrightarrow> norm_task e = e"
proof (induction B arbitrary: seen)
  case Nil
  then show ?case by simp
next
  case (Cons a B)
  have n: "a\<lparr>display_name := task_name a\<rparr> = norm_task a" by (simp add: norm_task_def)
  from Cons.prems consider "e \<in> set (dedup_tasks seen B)"
    | "e = norm_task a" | "e \<in> set (dedup_tasks (insert (task_name a, kind a) seen) B)"
    by (auto simp: Let_def n split: if_splits)
  then show ?case by cases (auto intro: Cons.IH)
qed

lemma dedup_tasks_id:
  "distinct (map task_key B) \<Longrightarrow> \<forall>e\<in>set B. norm_task e = e \<Longrightarrow>
   task_key ` set B \<inter> seen = {} \<Longrightarrow> dedup_tasks seen B = B"
proof (induction B arbitrary: seen)
  case Nil
  then show ?case by simp
next
  case (Cons e B)
  have k: "(task_name e, kind e) = task_key e" by (simp add: task_key_def)
  have n: "e\<lparr>display_name := task_name e\<rparr> = e" using Cons.prems(2) by (simp add: norm_task_def)
  have notin: "task_key e \<notin> seen" using Cons.prems(3) by auto
  have "dedup_tasks (insert (task_key e) seen) B = B"
    using Cons.prems by (intro Cons.IH) auto
  then show ?case using notin by (simp add: Let_def k n)
qed

lemma append_missing_set: "set (append_missing po ts) = set po \<union> task_name ` set ts"
  unfolding append_missing_def by (induction ts arbitrary: po) auto

lemma append_missing_id: "task_name ` set ts \<subseteq> set po \<Longrightarrow> append_missing po ts = po"
  unfolding append_missing_def by (induction ts arbitrary: po) auto

text \<open>Saving a state whose queue, package list and flags are already in saved form only rewrites the files.\<close>

lemma save_queue_fixed:
  assumes "dedup_tasks {} (build_queue st) = build_queue st"
    and "append_missing (queue_packages st) (build_queue st) = queue_packages st"
    and "filter (\<lambda>pkg. list_ex (\<lambda>t. task_name t = pkg) (build_queue st)) (queue_packages st)
           = queue_packages st"
    and "\<And>pkg. (if pkg \<in> set (queue_packages st)
                 then Some (case package_status st pkg of Some b \<Rightarrow> b | None \<Rightarrow> False)
                 else None) = package_status st pkg"
  shows "save_queue None st =
           st\<lparr>queue_file := Some (write_queue_file (queue_packages st) (package_status st)),
              queue_meta_file := Some (write_meta_from_tasks (build_queue st))\<rparr>"
proof -
  have f: "(\<lambda>pkg. if pkg \<in> set (queue_packages st)
                 then Some (case package_status st pkg of Some b \<Rightarrow> b | None \<Rightarrow> False)
                 else None) = package_status st"
    by (rule ext) (rule assms(4))
  show ?thesis
    unfolding save_queue_def Let_def option.case assms(1) assms(2) assms(3) f
    by simp
qed

text \<open>The three in-memory parts of a saved state.\<close>

definition saved_tasks :: "MenuState \<Rightarrow> BuildTask list" where
  "saved_tasks st = dedup_tasks {} (build_queue st)"

definition saved_packages :: "MenuState \<Rightarrow> string list" where
  "saved_packages st =
     filter (\<lambda>pkg. list_ex (\<lambda>t. task_name t = pkg) (saved_tasks st))
       (append_missing (queue_packages st) (saved_tasks st))"

definition saved_status :: "MenuState \<Rightarrow> string \<rightharpoonup> bool" where
  "saved_status st =
     (\<lambda>pkg. if pkg \<in> set (saved_packages st)
            then Some (case package_status st pkg of Some b \<Rightarrow> b | None \<Rightarrow> False)
            else None)"

lemma save_queue_parts:
  "save_queue None st =
     st\<lparr>build_queue := saved_tasks st, queue_packages := saved_packages st,
        package_status := saved_status st,
        queue_file := Some (write_queue_file (saved_packages st) (saved_status st)),
        queue_meta_file := Some (write_meta_from_tasks (saved_tasks st))\<rparr>"
  by (simp add: save_queue_def Let_def saved_tasks_def saved_packages_def saved_status_def)

lemma saved_tasks_dedup: "dedup_tasks {} (saved_tasks st) = saved_tasks st"
  unfolding saved_tasks_def using dedup_tasks_keys [of "{}" "build_queue st"]
  by (intro dedup_tasks_id) (auto simp: dedup_tasks_normal)

lemma saved_names: "task_name ` set (saved_tasks st) \<subseteq> set (saved_packages st)"
  by (auto simp: saved_packages_def append_missing_set list_ex_iff)

lemma saved_packages_filter:
  "filter (\<lambda>pkg. list_ex (\<lambda>t. task_name t = pkg) (saved_tasks st)) (saved_packages st)
     = saved_packages st"
  by (simp add: saved_packages_def)

lemma saved_status_fix:
  "(if pkg \<in> set (saved_packages st)
    then Some (case saved_status st pkg of Some b \<Rightarrow> b | None \<Rightarrow> False) else None)
     = saved_status st pkg"
  by (simp add: saved_status_def)

lemma save_queue_idem: "save_queue None (save_queue None st) = save_queue None st"
proof -
  let ?s = "save_queue None st"
  have sel: "build_queue ?s = saved_tasks st" "queue_packages ?s = saved_packages st"
    "package_status ?s = saved_status st"
    by (simp_all add: save_queue_parts)
  have "save_queue None ?s =
          ?s\<lparr>queue_file := Some (write_queue_file (queue_packages ?s) (package_status ?s)),
             queue_meta_file := Some (write_meta_from_tasks (build_queue ?s))\<rparr>"
    unfolding sel
    by (rule save_queue_fixed [of ?s, unfolded sel])
       (simp_all only: saved_tasks_dedup append_missing_id [OF saved_names]
          saved_packages_filter saved_status_fix)
  also have "\<dots> = ?s" unfolding sel by (simp add: save_queue_parts)
  finally show ?thesis .
qed

lemma add_task_step_queue:
  "build_queue (fst (add_task_step rc t (st, a, n))) = bq_step t (build_queue st)"
  by (simp add: add_task_step_def Let_def bq_step_def norm_task_def split: option.splits)

lemma add_task_step_packages:
  "queue_packages (fst (add_task_step rc t (st, a, n))) =
     (if task_name t \<notin> set (queue_packages st) then queue_packages st @ [task_name t]
      else queue_packages st)"
  by (simp add: add_task_step_def Let_def)

lemma add_task_step_status_other:
  "x \<noteq> task_name t \<Longrightarrow>
   package_status (fst (add_task_step rc t (st, a, n))) x = package_status st x"
  by (simp add: add_task_step_def Let_def split: option.splits)

lemma add_task_step_status_same:
  "package_status (fst (add_task_step rc t (st, a, n))) (task_name t) \<noteq> None \<and>
   (rc \<longrightarrow> package_status (fst (add_task_step rc t (st, a, n))) (task_name t) = Some False)"
  by (auto simp: add_task_step_def Let_def split: option.splits)

lemma add_task_step_status_keep:
  "(package_status st x \<noteq> None \<longrightarrow> package_status (fst (add_task_step rc t (st, a, n))) x \<noteq> None) \<and>
   (package_status st x = Some False \<longrightarrow>
      package_status (fst (add_task_step rc t (st, a, n))) x = Some False)"
  by (cases "x = task_name t") (auto simp: add_task_step_def Let_def split: option.splits)

lemma fold_add_queue:
  "build_queue (fst (fold (add_task_step rc) ts (st, a, n))) = fold bq_step ts (build_queue st)"
proof (induction ts arbitrary: st a n)
  case Nil
  then show ?case by simp
next
  case (Cons t ts)
  obtain st' a' n' where s: "add_task_step rc t (st, a, n) = (st', a', n')"
    by (cases "add_task_step rc t (st, a, n)")
  have "build_queue st' = bq_step t (build_queue st)"
    using add_task_step_queue [of rc t st a n] by (simp add: s)
  then show ?case by (simp add: s Cons.IH)
qed

lemma fold_add_status:
  "t \<in> set ts \<Longrightarrow>
   package_status (fst (fold (add_task_step rc) ts (st, a, n))) (task_name t) \<noteq> None \<and>
   (rc \<longrightarrow> package_status (fst (fold (add_task_step rc) ts (st, a, n))) (task_name t) = Some False)"
proof (induction ts arbitrary: st a n rule: rev_induct)
  case Nil
  then show ?case by simp
next
  case (snoc u ts)
  obtain st' a' n' where s: "fold (add_task_step rc) ts (st, a, n) = (st', a', n')"
    by (cases "fold (add_task_step rc) ts (st, a, n)")
  have f: "fold (add_task_step rc) (ts @ [u]) (st, a, n) = add_task_step rc u (st', a', n')"
    by (simp add: s)
  show ?case
  proof (cases "task_name t = task_name u")
    case True
    show ?thesis unfolding f True
      using add_task_step_status_same [of rc u st' a' n'] by blast
  next
    case False
    then have "t \<in> set ts" using snoc.prems by auto
    note ih = snoc.IH [OF this, of st a n, unfolded s fst_conv]
    then show ?thesis unfolding f
      using add_task_step_status_keep [of st' "task_name t" rc u a' n'] by blast
  qed
qed

lemma bq_step_keys:
  "distinct (map task_key B) \<Longrightarrow> \<exists>e\<in>set B. task_key e = task_key t \<Longrightarrow>
   map task_key (bq_step t B) = map task_key B"
  by (simp add: bq_step_map o_def)

text \<open>A pass of \<^verbatim>\<open>add_tasks\<close> in which every task finds its queued counterpart.\<close>

lemma fold_add_all_replaced:
  assumes "distinct (map task_key (build_queue st))"
    and "\<forall>t\<in>set ts. \<exists>e\<in>set (build_queue st). task_key e = task_key t"
    and "\<forall>t\<in>set ts. task_name t \<in> set (queue_packages st)"
    and "\<forall>t\<in>set ts. package_status st (task_name t) \<noteq> None \<and>
                      (rc \<longrightarrow> package_status st (task_name t) = Some False)"
  shows "fold (add_task_step rc) ts (st, a, n) =
           (st\<lparr>build_queue := fold bq_step ts (build_queue st)\<rparr>, a, n + length ts)"
  using assms
proof (induction ts arbitrary: st a n)
  case Nil
  then show ?case by simp
next
  case (Cons t ts)
  let ?B = "build_queue st"
  have ex: "\<exists>e\<in>set ?B. task_key e = task_key t" using Cons.prems(2) by simp
  have rep: "replace_existing t ?B = Some (bq_step t ?B)"
    using replace_existing_map [OF Cons.prems(1) ex] by (simp add: bq_step_def)
  have nm: "task_name t \<in> set (queue_packages st)" using Cons.prems(3) by simp
  have stt: "package_status st (task_name t) \<noteq> None"
    "rc \<Longrightarrow> package_status st (task_name t) = Some False"
    using Cons.prems(4) by simp_all
  have upd: "rc \<Longrightarrow> (package_status st)(task_name t \<mapsto> False) = package_status st"
    using stt(2) by (simp add: fun_upd_idem)
  have step: "add_task_step rc t (st, a, n) = (st\<lparr>build_queue := bq_step t ?B\<rparr>, a, n + 1)"
    using stt(1) upd nm by (cases rc) (auto simp: add_task_step_def Let_def rep)
  let ?st = "st\<lparr>build_queue := bq_step t ?B\<rparr>"
  have keys: "map task_key (bq_step t ?B) = map task_key ?B"
    by (rule bq_step_keys [OF Cons.prems(1) ex])
  have d: "distinct (map task_key (build_queue ?st))" using Cons.prems(1) by (simp add: keys)
  have e2: "\<forall>t\<in>set ts. \<exists>e\<in>set (build_queue ?st). task_key e = task_key t"
  proof
    fix u assume "u \<in> set ts"
    then obtain e where "e \<in> set ?B" "task_key e = task_key u" using Cons.prems(2) by auto
    then have "task_key u \<in> task_key ` set ?B" by (metis imageI)
    then have "task_key u \<in> set (map task_key ?B)" by simp
    then have "task_key u \<in> set (map task_key (bq_step t ?B))" by (simp only: keys)
    then show "\<exists>e\<in>set (build_queue ?st). task_key e = task_key u" by auto
  qed
  have "fold (add_task_step rc) ts (?st, a, n + 1) =
          (?st\<lparr>build_queue := fold bq_step ts (build_queue ?st)\<rparr>, a, n + 1 + length ts)"
    using Cons.prems(3,4) by (intro Cons.IH [OF d e2]) simp_all
  then show ?case by (simp add: step)
qed

lemma find_key_witness:
  "find (\<lambda>e. task_key e = k) B = Some x \<Longrightarrow> \<exists>e\<in>set B. task_key e = k"
  by (induction B) (auto split: if_splits)

lemma saved_tasks_after_add:
  assumes "fold (add_task_step rc) ts (st, a, n) = (st1, a1, n1)" and "t \<in> set ts"
  shows "\<exists>u. last_task (task_key t) ts = Some u \<and>
             find (\<lambda>e. task_key e = task_key t) (saved_tasks st1) = Some (norm_task u)"
proof -
  have B1: "build_queue st1 = fold bq_step ts (build_queue st)"
    using fold_add_queue [of rc ts st a n] by (simp add: assms(1))
  have "last_task (task_key t) ts \<noteq> None" using assms(2) by (auto simp: last_task_None_iff)
  then obtain u where u: "last_task (task_key t) ts = Some u" by auto
  then have "find (\<lambda>e. task_key e = task_key t) (build_queue st1) = Some (norm_task u)"
    by (simp add: B1 find_fold_bq_step)
  then have "find (\<lambda>e. task_key e = task_key t) (saved_tasks st1) = Some (norm_task u)"
    by (simp add: saved_tasks_def dedup_tasks_find)
  with u show ?thesis by blast
qed

lemma saved_tasks_distinct: "distinct (map task_key (saved_tasks st))"
  by (simp add: saved_tasks_def dedup_tasks_keys)

lemma fold_bq_step_saved:
  assumes "fold (add_task_step rc) ts (st, a, n) = (st1, a1, n1)"
  shows "fold bq_step ts (saved_tasks st1) = saved_tasks st1"
proof -
  let ?U = "saved_tasks st1"
  have B1: "build_queue st1 = fold bq_step ts (build_queue st)"
    using fold_add_queue [of rc ts st a n] by (simp add: assms)
  have ex: "\<forall>t\<in>set ts. \<exists>e\<in>set ?U. task_key e = task_key t"
    using saved_tasks_after_add [OF assms] find_key_witness by blast
  have "fold bq_step ts ?U =
          map (\<lambda>e. case last_task (task_key e) ts of Some t \<Rightarrow> norm_task t | None \<Rightarrow> e) ?U"
    by (rule fold_bq_step_map [OF saved_tasks_distinct ex])
  also have "\<dots> = ?U"
  proof (rule map_idI)
    fix e assume e: "e \<in> set ?U"
    show "(case last_task (task_key e) ts of Some t \<Rightarrow> norm_task t | None \<Rightarrow> e) = e"
    proof (cases "last_task (task_key e) ts")
      case None
      then show ?thesis by simp
    next
      case (Some u)
      have "find (\<lambda>x. task_key x = task_key e) ?U = Some e"
        by (rule find_distinct_self [OF saved_tasks_distinct e])
      moreover have "find (\<lambda>x. task_key x = task_key e) ?U = Some (norm_task u)"
        using Some by (simp add: saved_tasks_def dedup_tasks_find B1 find_fold_bq_step)
      ultimately show ?thesis using Some by simp
    qed
  qed
  finally show ?thesis .
qed

text \<open>
  C8. Calling \<^verbatim>\<open>add_tasks\<close> a second time with the same list, right after the first
  call, reports no newly added task (and the same total) and leaves the whole state as
  the first call left it: the queued tasks, the package order, the completion flags and
  the two persisted records.
\<close>

theorem add_tasks_twice:
  "add_tasks ts rc (snd (add_tasks ts rc st)) = ((0, length ts), snd (add_tasks ts rc st))"
proof (cases "ts = []")
  case True
  then show ?thesis by (simp add: add_tasks_def)
next
  case False
  obtain st1 a1 n1 where f1: "fold (add_task_step rc) ts (st, 0, 0) = (st1, a1, n1)"
    by (cases "fold (add_task_step rc) ts (st, 0, 0)")
  let ?s1 = "save_queue None st1"
  have first: "snd (add_tasks ts rc st) = ?s1" using False by (simp add: add_tasks_def f1)
  have sel: "build_queue ?s1 = saved_tasks st1" "queue_packages ?s1 = saved_packages st1"
    "package_status ?s1 = saved_status st1"
    by (simp_all add: save_queue_parts)
  have d: "distinct (map task_key (build_queue ?s1))" by (simp add: sel saved_tasks_distinct)
  have ex: "\<forall>t\<in>set ts. \<exists>e\<in>set (build_queue ?s1). task_key e = task_key t"
    unfolding sel using saved_tasks_after_add [OF f1] find_key_witness by blast
  have nm: "\<forall>t\<in>set ts. task_name t \<in> set (queue_packages ?s1)"
  proof
    fix t assume "t \<in> set ts"
    with ex obtain e where e: "e \<in> set (saved_tasks st1)" "task_key e = task_key t"
      unfolding sel by blast
    then have "task_name e = task_name t" by (simp add: key_eq_iff)
    then show "task_name t \<in> set (queue_packages ?s1)"
      unfolding sel using saved_names [of st1] e(1) by force
  qed
  have stt: "\<forall>t\<in>set ts. package_status ?s1 (task_name t) \<noteq> None \<and>
               (rc \<longrightarrow> package_status ?s1 (task_name t) = Some False)"
  proof
    fix t assume t: "t \<in> set ts"
    then have "task_name t \<in> set (saved_packages st1)" using nm unfolding sel by simp
    then have v: "saved_status st1 (task_name t) =
                    Some (case package_status st1 (task_name t) of Some b \<Rightarrow> b | None \<Rightarrow> False)"
      by (simp add: saved_status_def)
    have "rc \<longrightarrow> package_status st1 (task_name t) = Some False"
      using fold_add_status [OF t, of rc st 0 0] unfolding f1 fst_conv by blast
    with v show "package_status ?s1 (task_name t) \<noteq> None \<and>
               (rc \<longrightarrow> package_status ?s1 (task_name t) = Some False)"
      unfolding sel by auto
  qed
  have "fold (add_task_step rc) ts (?s1, 0, 0) =
          (?s1\<lparr>build_queue := fold bq_step ts (build_queue ?s1)\<rparr>, 0, 0 + length ts)"
    by (rule fold_add_all_replaced [OF d ex nm stt])
  also have "fold bq_step ts (build_queue ?s1) = build_queue ?s1"
    unfolding sel by (rule fold_bq_step_saved [OF f1])
  also have "?s1\<lparr>build_queue := build_queue ?s1\<rparr> = ?s1" by simp
  finally have second: "fold (add_task_step rc) ts (?s1, 0, 0) = (?s1, 0, length ts)" by simp
  show ?thesis
    unfolding first using False by (simp add: add_tasks_def second save_queue_idem)
qed

subsection \<open>Saving and loading again\<close>



























































section \<open>Lock-contention recovery (debuild\_runner.py)\<close>

text \<open>
  The module constants read from the environment at import time
  (\<^verbatim>\<open>AUTO_KILL_LOCK_HOLDERS\<close>, \<^verbatim>\<open>APT_WAIT_FOR_LOCK\<close>,
  \<^verbatim>\<open>APT_LOCK_WAIT_TIMEOUT\<close>, \<^verbatim>\<open>APT_MAX_RETRIES\<close>) are the fields of a
  configuration record.
\<close>

record lock_config =
  AUTO_KILL_LOCK_HOLDERS :: bool
  APT_WAIT_FOR_LOCK :: bool
  APT_LOCK_WAIT_TIMEOUT :: int
  APT_MAX_RETRIES :: int

record CompletedProcess =
  returncode :: int
  stdout :: string
  stderr :: string

text \<open>
  What lies outside the program: the result of the \<open>n\<close>-th run of the wrapped command,
  whether the \<open>n\<close>-th poll loop of \<^verbatim>\<open>_wait_for_lock_release\<close> saw the lock
  files clear before the timeout, and the process ids that \<^verbatim>\<open>re.findall\<close>
  followed by \<^verbatim>\<open>int\<close> yields on an output text.
\<close>

record lock_world =
  run_result :: "nat \<Rightarrow> CompletedProcess"
  lock_clears :: "nat \<Rightarrow> bool"
  findall_pids :: "string \<Rightarrow> nat list"

text \<open>Every action on another process is recorded in a trace.\<close>

datatype lock_event =
    RunCommand "string list"
  | PrintProcessDetails "nat list"
  | PrintRelatedProcesses
  | PollLockFiles
  | TerminateProcesses "nat list"
  | FixDpkgState
  | PurgeBrokenBuildDeps

datatype run_outcome =
    Returned CompletedProcess
  | CalledProcessError CompletedProcess
  | UnboundLocalError

definition lock_keywords :: "string list" where
  "lock_keywords =
     [''could not get lock'',
      ''unable to acquire the dpkg frontend lock'',
      ''is another process using it?'',
      ''is locked by another process'',
      ''dpkg was interrupted'']"

definition extract_lock_pids :: "lock_world \<Rightarrow> string \<Rightarrow> nat list" where
  "extract_lock_pids w output = remdups (findall_pids w output)"

definition has_lock :: "lock_world \<Rightarrow> string \<Rightarrow> bool" where
  "has_lock w combined_output =
     (extract_lock_pids w combined_output \<noteq> [] \<or>
      list_ex (\<lambda>keyword. contains (lower combined_output) keyword) lock_keywords)"

text \<open>
  \<^verbatim>\<open>_wait_for_lock_release\<close>: returns at once with \<open>False\<close> when waiting is
  disabled or the timeout is not positive; otherwise it polls, and the world decides
  whether the lock cleared in time.
\<close>

definition wait_for_lock_release ::
  "lock_config \<Rightarrow> lock_world \<Rightarrow> nat \<Rightarrow> lock_event list \<Rightarrow> bool \<times> lock_event list" where
  "wait_for_lock_release cfg w n tr =
     (if \<not> APT_WAIT_FOR_LOCK cfg \<or> APT_LOCK_WAIT_TIMEOUT cfg \<le> 0 then (False, tr)
      else (lock_clears w n, tr @ [PollLockFiles]))"

text \<open>
  \<^verbatim>\<open>_handle_lock_and_recover\<close> returns \<open>(should_retry, consume_attempt)\<close>; the
  model also returns the extended trace.
\<close>

definition handle_lock_and_recover ::
  "lock_config \<Rightarrow> lock_world \<Rightarrow> nat \<Rightarrow> string \<Rightarrow> lock_event list
     \<Rightarrow> (bool \<times> bool) \<times> lock_event list" where
  "handle_lock_and_recover cfg w n combined_output tr =
     (let pids = extract_lock_pids w combined_output in
      if \<not> has_lock w combined_output then ((False, False), tr)
      else
        let tr1 = (if pids \<noteq> [] then tr @ [PrintProcessDetails pids] else tr)
                    @ [PrintRelatedProcesses];
            (released, tr2) = wait_for_lock_release cfg w n tr1
        in if released then ((True, False), tr2)
           else if \<not> AUTO_KILL_LOCK_HOLDERS cfg then ((False, False), tr2)
           else ((True, True),
                 tr2 @ [TerminateProcesses pids, FixDpkgState, PurgeBrokenBuildDeps, FixDpkgState]))"

text \<open>The text handed to the detector: stdout, a backslash, the letter n, stderr.\<close>

definition combined :: "CompletedProcess \<Rightarrow> string" where
  "combined proc = stdout proc @ [CHR 0x5C, CHR ''n''] @ stderr proc"

text \<open>
  The \<^verbatim>\<open>while attempts <= effective_max\<close> loop of
  \<^verbatim>\<open>run_with_lock_retries\<close>. A retry after a successful wait consumes no
  attempt, so the loop need not end: not returning is the value \<open>None\<close>. The argument
  \<open>n\<close> counts the runs of the command, \<open>proc_var\<close> is the most recent \<^verbatim>\<open>proc\<close>
  (unbound before the first run).
\<close>

partial_function (option) lock_retry_loop ::
  "lock_config \<Rightarrow> lock_world \<Rightarrow> string list \<Rightarrow> bool \<Rightarrow> int \<Rightarrow> nat \<Rightarrow> int
     \<Rightarrow> CompletedProcess option \<Rightarrow> lock_event list \<Rightarrow> (run_outcome \<times> lock_event list) option" where
  "lock_retry_loop cfg w cmd check effective_max n attempts proc_var tr =
     (if attempts \<le> effective_max then
        let proc = run_result w n; tr1 = tr @ [RunCommand cmd] in
        if returncode proc = 0 then Some (Returned proc, tr1)
        else
          let ((should_retry, consume_attempt), tr2) =
                handle_lock_and_recover cfg w n (combined proc) tr1
          in if attempts < effective_max \<and> should_retry
             then lock_retry_loop cfg w cmd check effective_max (Suc n)
                    (if consume_attempt then attempts + 1 else attempts) (Some proc) tr2
             else Some (if check then CalledProcessError proc else Returned proc, tr2)
      else (case proc_var of
              None \<Rightarrow> Some (UnboundLocalError, tr)
            | Some proc \<Rightarrow> Some (Returned proc, tr)))"

definition run_with_lock_retries ::
  "lock_config \<Rightarrow> lock_world \<Rightarrow> string list \<Rightarrow> bool \<Rightarrow> int option
     \<Rightarrow> (run_outcome \<times> lock_event list) option" where
  "run_with_lock_retries cfg w cmd check max_retries =
     lock_retry_loop cfg w cmd check
       (case max_retries of None \<Rightarrow> APT_MAX_RETRIES cfg | Some m \<Rightarrow> m) 0 0 None []"

definition is_terminate :: "lock_event \<Rightarrow> bool" where
  "is_terminate e = (case e of TerminateProcesses _ \<Rightarrow> True | _ \<Rightarrow> False)"

definition is_run :: "lock_event \<Rightarrow> bool" where
  "is_run e = (case e of RunCommand _ \<Rightarrow> True | _ \<Rightarrow> False)"

subsection \<open>Lock contention with recovery switched off\<close>

lemma handle_lock_and_recover_disabled:
  assumes "\<not> AUTO_KILL_LOCK_HOLDERS cfg" and "\<not> APT_WAIT_FOR_LOCK cfg"
  shows "handle_lock_and_recover cfg w n out tr =
           ((False, False),
            if has_lock w out
            then (if extract_lock_pids w out \<noteq> []
                  then tr @ [PrintProcessDetails (extract_lock_pids w out)] else tr)
                 @ [PrintRelatedProcesses]
            else tr)"
  using assms by (simp add: handle_lock_and_recover_def wait_for_lock_release_def Let_def)

text \<open>
  C10. A command whose first run fails, with auto-kill disabled and wait-for-lock
  disabled, is run exactly once: \<^verbatim>\<open>run_with_lock_retries\<close> hands back that very
  failure (raised as \<^verbatim>\<open>CalledProcessError\<close> when \<open>check\<close> is set, returned
  otherwise) and the trace holds no attempt to terminate a process, whatever lock
  signature (holder process ids or lock phrases) the output carries.
\<close>

theorem run_with_lock_retries_recovery_disabled:
  assumes "returncode (run_result w 0) \<noteq> 0"
    and "\<not> AUTO_KILL_LOCK_HOLDERS cfg"
    and "\<not> APT_WAIT_FOR_LOCK cfg"
    and "0 \<le> (case max_retries of None \<Rightarrow> APT_MAX_RETRIES cfg | Some m \<Rightarrow> m)"
  shows "\<exists>tr. run_with_lock_retries cfg w cmd check max_retries =
              Some (if check then CalledProcessError (run_result w 0)
                    else Returned (run_result w 0), tr)
            \<and> filter is_terminate tr = []
            \<and> filter is_run tr = [RunCommand cmd]"
proof -
  let ?p = "run_result w 0"
  let ?h = "handle_lock_and_recover cfg w 0 (combined ?p) [RunCommand cmd]"
  have h: "fst ?h = (False, False)"
    by (simp add: handle_lock_and_recover_disabled [OF assms(2,3)])
  have t: "filter is_terminate (snd ?h) = []" "filter is_run (snd ?h) = [RunCommand cmd]"
    by (simp_all add: handle_lock_and_recover_disabled [OF assms(2,3)]
          is_terminate_def is_run_def)
  have "run_with_lock_retries cfg w cmd check max_retries =
          Some (if check then CalledProcessError ?p else Returned ?p, snd ?h)"
    unfolding run_with_lock_retries_def
    by (subst lock_retry_loop.simps) (use assms(1,4) h in \<open>simp add: Let_def split_beta\<close>)
  with t show ?thesis by blast
qed

text \<open>
  A failing \<^verbatim>\<open>apt-get\<close> run whose output names the holder process 1234 and carries
  the phrase \<^verbatim>\<open>Could not get lock\<close>. The pattern of \<^verbatim>\<open>_extract_lock_pids\<close>, as
  it is written in the source, asks for a backslash after the word \<^verbatim>\<open>process\<close>, so
  it finds no process id in this output: the contention is recognised by the phrase.
\<close>

definition held_lock_world :: lock_world where
  "held_lock_world =
     \<lparr>run_result = (\<lambda>n. \<lparr>returncode = 100, stdout = [],
                           stderr = ''E: Could not get lock, held by process 1234''\<rparr>),
      lock_clears = (\<lambda>n. False),
      findall_pids = (\<lambda>s. [])\<rparr>"

definition no_recovery_config :: lock_config where
  "no_recovery_config =
     \<lparr>AUTO_KILL_LOCK_HOLDERS = False, APT_WAIT_FOR_LOCK = False,
      APT_LOCK_WAIT_TIMEOUT = 600, APT_MAX_RETRIES = 3\<rparr>"

lemma held_lock_world_has_lock: "has_lock held_lock_world (combined (run_result held_lock_world 0))"
  by code_simp

theorem run_with_lock_retries_recovery_disabled_witness:
  "has_lock held_lock_world (combined (run_result held_lock_world 0))
   \<and> (\<exists>tr. run_with_lock_retries no_recovery_config held_lock_world [''apt-get'', ''install''] True None =
              Some (CalledProcessError (run_result held_lock_world 0), tr)
            \<and> filter is_terminate tr = []
            \<and> filter is_run tr = [RunCommand [''apt-get'', ''install'']])"
proof -
  have a: "returncode (run_result held_lock_world 0) \<noteq> 0"
    and b: "\<not> AUTO_KILL_LOCK_HOLDERS no_recovery_config"
    and c: "\<not> APT_WAIT_FOR_LOCK no_recovery_config"
    and d: "0 \<le> (case None of None \<Rightarrow> APT_MAX_RETRIES no_recovery_config | Some m \<Rightarrow> m)"
    by (simp_all add: held_lock_world_def no_recovery_config_def)
  from run_with_lock_retries_recovery_disabled [OF a b c d, of "[''apt-get'', ''install'']" True]
    held_lock_world_has_lock
  show ?thesis by simp
qed

end
